theory Spec2Isabelle
  imports Complex_Main
begin

section \<open>Shared data model\<close>

text \<open>
  A state is a grid coordinate \<open>(row, col)\<close>, an action is a string label such as
  \<open>''N''\<close>. Python floats are modelled as reals: the properties below are about which
  table entries are read and written, not about rounding.
\<close>

type_synonym pos = "int \<times> int"
type_synonym action = string

text \<open>
  The exceptions the modelled code can raise. \<open>InvalidAction\<close> is the
  \<^verbatim>\<open>ValueError("Invalid action: ...")\<close> of \<^verbatim>\<open>step\<close>; \<open>EmptyMax\<close> is the
  \<^verbatim>\<open>ValueError\<close> of \<^verbatim>\<open>max\<close> on an empty sequence; \<open>IndexError\<close> is
  \<^verbatim>\<open>random.choice\<close> on an empty sequence; \<open>KeyError\<close> is a missing dictionary key.
\<close>

datatype error = InvalidAction | EmptyMax | IndexError | KeyError

type_synonym outcome = "pos \<times> real \<times> bool"

text \<open>
  What the algorithms use of an environment object: the attributes \<^verbatim>\<open>states\<close>,
  \<^verbatim>\<open>goal_pos\<close>, \<^verbatim>\<open>start_pos\<close>, \<^verbatim>\<open>action_keys\<close> and the method \<^verbatim>\<open>step\<close>.
\<close>

record env =
  states :: "pos list"
  goal_pos :: pos
  start_pos :: pos
  action_keys :: "action list"
  step :: "pos \<Rightarrow> action \<Rightarrow> error + outcome"

section \<open>The cliff-walk environment (Homework2/source/cliffwalk.py)\<close>

text \<open>
  The attributes of a \<^verbatim>\<open>CliffWalkEnv\<close> object that \<^verbatim>\<open>step\<close> reads. The grid is a
  rectangular two-dimensional array of cell kinds (0 path, 1 wall, 2 start, 3 goal,
  4 cliff); \<^verbatim>\<open>actions\<close> is the dictionary from an action label to its move.
\<close>

record cliffwalk =
  maze :: "int list list"
  height :: int
  width :: int
  cw_start_pos :: pos
  cw_goal_pos :: pos
  actions :: "action \<rightharpoonup> (int \<times> int)"
  reward_step :: real
  reward_goal :: real
  reward_cliff :: real

text \<open>\<^verbatim>\<open>self.maze[p]\<close> for a position inside the array.\<close>

definition cell :: "cliffwalk \<Rightarrow> pos \<Rightarrow> int" where
  "cell e p = maze e ! nat (fst p) ! nat (snd p)"

definition in_bounds :: "cliffwalk \<Rightarrow> pos \<Rightarrow> bool" where
  "in_bounds e p \<longleftrightarrow> 0 \<le> fst p \<and> fst p < height e \<and> 0 \<le> snd p \<and> snd p < width e"

text \<open>
  Modelled from the spec: \<^verbatim>\<open>MazeEnvironment.step\<close> of Homework1/source/maze.py, the
  parent method that \<^verbatim>\<open>CliffWalkEnv.step\<close> falls back to; that file is not among the
  sources. The spec makes \<^verbatim>\<open>step\<close> total over (non-goal state, action) pairs, failing
  with \<open>InvalidAction\<close> on an unrecognized action; at the goal it returns
  \<open>(goal, 0, True)\<close>; a wall or the grid boundary blocks the move; entering the goal
  gives the goal reward and ends the episode, any other move gives the step reward.
\<close>

definition maze_step :: "cliffwalk \<Rightarrow> pos \<Rightarrow> action \<Rightarrow> error + outcome" where
  "maze_step e current_pos a =
     (if current_pos = cw_goal_pos e then Inr (cw_goal_pos e, 0, True)
      else case actions e a of
        None \<Rightarrow> Inl InvalidAction
      | Some move \<Rightarrow>
          (let next_pos_theoretical = (fst current_pos + fst move, snd current_pos + snd move);
               next_pos = (if in_bounds e next_pos_theoretical \<and> cell e next_pos_theoretical \<noteq> 1
                           then next_pos_theoretical else current_pos)
           in if next_pos = cw_goal_pos e then Inr (next_pos, reward_goal e, True)
              else Inr (next_pos, reward_step e, False)))"

text \<open>\<^verbatim>\<open>CliffWalkEnv.step\<close>, cliffwalk.py lines 45 to 73.\<close>

definition cliff_step :: "cliffwalk \<Rightarrow> pos \<Rightarrow> action \<Rightarrow> error + outcome" where
  "cliff_step e current_pos a =
     (if current_pos = cw_goal_pos e then Inr (cw_goal_pos e, 0, True)
      else case actions e a of
        None \<Rightarrow> Inl InvalidAction
      | Some move \<Rightarrow>
          (let next_pos_theoretical = (fst current_pos + fst move, snd current_pos + snd move)
           in if in_bounds e next_pos_theoretical \<and> cell e next_pos_theoretical = 4
              then Inr (cw_start_pos e, reward_cliff e, False)
              else maze_step e current_pos a))"

text \<open>The four compass moves, and the 3x3 layout \<^verbatim>\<open>cliffwalk1\<close> of layout.py.\<close>

definition compass :: "action \<rightharpoonup> (int \<times> int)" where
  "compass = [''N'' \<mapsto> (-1, 0), ''S'' \<mapsto> (1, 0), ''W'' \<mapsto> (0, -1), ''E'' \<mapsto> (0, 1)]"

definition cliffwalk1 :: cliffwalk where
  "cliffwalk1 = \<lparr> maze = [[2, 0, 4], [4, 0, 0], [0, 0, 3]], height = 3, width = 3,
     cw_start_pos = (0, 0), cw_goal_pos = (2, 2), actions = compass,
     reward_step = -1, reward_goal = 0, reward_cliff = -100 \<rparr>"

text \<open>A \<^verbatim>\<open>CliffWalkEnv\<close> object as the algorithms see it.\<close>

definition CliffWalkEnv :: "cliffwalk \<Rightarrow> pos list \<Rightarrow> action list \<Rightarrow> env" where
  "CliffWalkEnv e sts keys =
     \<lparr> states = sts, goal_pos = cw_goal_pos e, start_pos = cw_start_pos e,
       action_keys = keys, step = cliff_step e \<rparr>"

section \<open>Python dictionaries and the first-maximum rule\<close>

text \<open>
  A dictionary whose iteration order matters is an association list in insertion order
  with distinct keys; \<open>dict_set\<close> is \<^verbatim>\<open>d[k] = v\<close>: an existing key keeps its place,
  a new key goes last. A dictionary that is only looked up and stored into is a map, and
  \<open>dict_get\<close> is \<^verbatim>\<open>d[k]\<close> with its \<^verbatim>\<open>KeyError\<close>.
\<close>

fun dict_set :: "'k \<Rightarrow> 'v \<Rightarrow> ('k \<times> 'v) list \<Rightarrow> ('k \<times> 'v) list" where
  "dict_set k v [] = [(k, v)]"
| "dict_set k v ((k', v') # d) = (if k' = k then (k, v) # d else (k', v') # dict_set k v d)"

definition dict_get :: "('k \<rightharpoonup> 'v) \<Rightarrow> 'k \<Rightarrow> error + 'v" where
  "dict_get d k = (case d k of None \<Rightarrow> Inl KeyError | Some v \<Rightarrow> Inr v)"

text \<open>
  \<^verbatim>\<open>max(d, key=d.get)\<close>: the keys are visited in insertion order and the running best
  is replaced only by a strictly greater value, so the first maximal key wins; an empty
  dictionary raises.
\<close>

fun argmax_loop :: "('k \<times> real) list \<Rightarrow> 'k \<times> real \<Rightarrow> 'k \<times> real" where
  "argmax_loop [] best = best"
| "argmax_loop ((k, q) # d) best = argmax_loop d (if snd best < q then (k, q) else best)"

definition dict_argmax :: "('k \<times> real) list \<Rightarrow> error + 'k" where
  "dict_argmax d = (case d of [] \<Rightarrow> Inl EmptyMax | kq # rest \<Rightarrow> Inr (fst (argmax_loop rest kq)))"

section \<open>Dynamic programming (Homework1/source/algorithm.py)\<close>

type_synonym vtable = "pos \<rightharpoonup> real"
type_synonym policy = "pos \<rightharpoonup> action"

text \<open>
  The loop that fills \<^verbatim>\<open>action_values\<close> for a state \<open>s\<close> from a value table \<open>v\<close>
  (lines 51 to 55, and again lines 123 to 127 and 182 to 186).
\<close>

fun action_values :: "env \<Rightarrow> real \<Rightarrow> vtable \<Rightarrow> pos \<Rightarrow> action list \<Rightarrow>
    (action \<times> real) list \<Rightarrow> error + (action \<times> real) list" where
  "action_values env gamma v s [] av = Inr av"
| "action_values env gamma v s (a # as) av =
     (case step env s a of
        Inl e \<Rightarrow> Inl e
      | Inr (next_s, reward, _) \<Rightarrow>
          (case dict_get v next_s of
             Inl e \<Rightarrow> Inl e
           | Inr vn \<Rightarrow> action_values env gamma v s as (dict_set a (reward + gamma * vn) av)))"

text \<open>
  One sweep of value iteration, lines 44 to 63: the \<^verbatim>\<open>for s in env.states\<close> loop.
  \<open>v_old_iter\<close> is the copy made on line 42; the loop state is \<open>(v, policy, delta)\<close>.
\<close>

fun vi_sweep :: "env \<Rightarrow> real \<Rightarrow> vtable \<Rightarrow> pos list \<Rightarrow> vtable \<times> policy \<times> real \<Rightarrow>
    error + (vtable \<times> policy \<times> real)" where
  "vi_sweep env gamma v_old_iter [] st = Inr st"
| "vi_sweep env gamma v_old_iter (s # ss) (v, policy, delta) =
     (if s = goal_pos env then vi_sweep env gamma v_old_iter ss (v, policy, delta)
      else case dict_get v_old_iter s of
        Inl e \<Rightarrow> Inl e
      | Inr v_old \<Rightarrow>
          (case action_values env gamma v_old_iter s (action_keys env) [] of
             Inl e \<Rightarrow> Inl e
           | Inr av \<Rightarrow>
               (case dict_argmax av of
                  Inl e \<Rightarrow> Inl e
                | Inr best_action \<Rightarrow>
                    (case dict_get (map_of av) best_action of
                       Inl e \<Rightarrow> Inl e
                     | Inr q \<Rightarrow>
                         vi_sweep env gamma v_old_iter ss
                           (v(s \<mapsto> q), policy(s \<mapsto> best_action), max delta \<bar>v_old - q\<bar>)))))"

text \<open>
  The \<^verbatim>\<open>while True\<close> loop of \<^verbatim>\<open>value_iteration\<close>, lines 37 to 70. It may run for
  ever, which is the value \<open>None\<close>. The counter \<^verbatim>\<open>iteration\<close> is only printed.
\<close>

partial_function (option) vi_loop :: "env \<Rightarrow> real \<Rightarrow> real \<Rightarrow> vtable \<Rightarrow> policy \<Rightarrow> vtable list \<Rightarrow>
    (error + (vtable \<times> policy \<times> vtable list)) option" where
  "vi_loop env gamma theta v policy history =
     (case vi_sweep env gamma v (states env) (v, policy, 0) of
        Inl e \<Rightarrow> Some (Inl e)
      | Inr (v', policy', delta) \<Rightarrow>
          if delta < theta then Some (Inr (v', policy', history @ [v']))
          else vi_loop env gamma theta v' policy' (history @ [v']))"

text \<open>The dictionary comprehension \<^verbatim>\<open>{state: c for state in env.states}\<close>.\<close>

definition const_table :: "pos list \<Rightarrow> 'v \<Rightarrow> (pos \<rightharpoonup> 'v)" where
  "const_table sts c = fold (\<lambda>s d. d(s \<mapsto> c)) sts Map.empty"

definition value_iteration :: "env \<Rightarrow> real \<Rightarrow> real \<Rightarrow>
    (error + (vtable \<times> policy \<times> vtable list)) option" where
  "value_iteration env gamma theta =
     (let v = const_table (states env) 0;
          policy = const_table (states env) [];
          history = [v]
      in vi_loop env gamma theta v policy history)"

text \<open>
  The Bellman right-hand side in the spec's words: \<open>reward(s, a) + \<gamma> \<cdot> V[next(s, a)]\<close>, defined
  when \<^verbatim>\<open>step\<close> returns and the successor has an entry in \<open>V\<close>.
\<close>

definition q_value :: "env \<Rightarrow> real \<Rightarrow> vtable \<Rightarrow> pos \<Rightarrow> action \<Rightarrow> real option" where
  "q_value env gamma v s a =
     (case step env s a of
        Inl _ \<Rightarrow> None
      | Inr (next_s, reward, _) \<Rightarrow>
          (case v next_s of None \<Rightarrow> None | Some vn \<Rightarrow> Some (reward + gamma * vn)))"

text \<open>
  The synchronous Bellman-optimal update in the spec's words: \<open>x\<close> is the maximum over
  the actions of the right-hand side computed from the table \<open>snapshot\<close>.
\<close>

definition bellman_max :: "env \<Rightarrow> real \<Rightarrow> vtable \<Rightarrow> pos \<Rightarrow> real option \<Rightarrow> bool" where
  "bellman_max env gamma snapshot s x \<longleftrightarrow>
     action_keys env \<noteq> [] \<and>
     (\<forall>a \<in> set (action_keys env). q_value env gamma snapshot s a \<noteq> None) \<and>
     x = Some (Max ((\<lambda>a. the (q_value env gamma snapshot s a)) ` set (action_keys env)))"

text \<open>
  A history of value tables in which every table after the first is the synchronous
  Bellman-optimal update of the one before it, at every non-goal state.
\<close>

definition synchronous_history :: "env \<Rightarrow> real \<Rightarrow> vtable list \<Rightarrow> bool" where
  "synchronous_history env gamma history \<longleftrightarrow>
     (\<forall>k. Suc k < length history \<longrightarrow>
        (\<forall>s \<in> set (states env). s \<noteq> goal_pos env \<longrightarrow>
           bellman_max env gamma (history ! k) s ((history ! Suc k) s)))"

subsection \<open>The random source\<close>

text \<open>
  Python's global generator, as far as the code uses it. Each call of \<^verbatim>\<open>random.uniform\<close>
  or \<^verbatim>\<open>random.choice\<close> consumes one draw; what the \<open>n\<close>-th draw yields is arbitrary:
  \<open>uniform_draw\<close> for a call of \<^verbatim>\<open>random.uniform(0, 1)\<close>, \<open>index_draw\<close> (reduced
  modulo the length) for the position picked by \<^verbatim>\<open>random.choice\<close>, which raises
  \<^verbatim>\<open>IndexError\<close> on an empty sequence.
\<close>

record rng =
  uniform_draw :: "nat \<Rightarrow> real"
  index_draw :: "nat \<Rightarrow> nat"
  drawn :: nat

definition random_uniform :: "rng \<Rightarrow> real \<times> rng" where
  "random_uniform g = (uniform_draw g (drawn g), g\<lparr>drawn := Suc (drawn g)\<rparr>)"

definition random_choice :: "'a list \<Rightarrow> rng \<Rightarrow> error + ('a \<times> rng)" where
  "random_choice xs g =
     (if xs = [] then Inl IndexError
      else Inr (xs ! (index_draw g (drawn g) mod length xs), g\<lparr>drawn := Suc (drawn g)\<rparr>))"

subsection \<open>Policy iteration\<close>

text \<open>
  The initial policy, lines 84 and 85 (and 151 and 152): a random action for every
  non-goal state, in the order of \<^verbatim>\<open>env.states\<close>, then the empty string at the goal.
\<close>

fun random_policy :: "env \<Rightarrow> pos list \<Rightarrow> policy \<times> rng \<Rightarrow> error + (policy \<times> rng)" where
  "random_policy env [] st = Inr st"
| "random_policy env (s # ss) (policy, g) =
     (if s \<noteq> goal_pos env
      then case random_choice (action_keys env) g of
             Inl e \<Rightarrow> Inl e
           | Inr (a, g') \<Rightarrow> random_policy env ss (policy(s \<mapsto> a), g')
      else random_policy env ss (policy, g))"

text \<open>
  One evaluation sweep of \<^verbatim>\<open>policy_iteration\<close>, lines 100 to 107. The table \<open>v\<close> is
  read and written in place; the loop state is \<open>(v, delta)\<close>.
\<close>

fun pi_eval_sweep :: "env \<Rightarrow> real \<Rightarrow> policy \<Rightarrow> pos list \<Rightarrow> vtable \<times> real \<Rightarrow>
    error + (vtable \<times> real)" where
  "pi_eval_sweep env gamma policy [] st = Inr st"
| "pi_eval_sweep env gamma policy (s # ss) (v, delta) =
     (if s = goal_pos env then pi_eval_sweep env gamma policy ss (v, delta)
      else case dict_get v s of
        Inl e \<Rightarrow> Inl e
      | Inr v_old \<Rightarrow>
          (case dict_get policy s of
             Inl e \<Rightarrow> Inl e
           | Inr a \<Rightarrow>
               (case step env s a of
                  Inl e \<Rightarrow> Inl e
                | Inr (next_s, reward, _) \<Rightarrow>
                    (case dict_get v next_s of
                       Inl e \<Rightarrow> Inl e
                     | Inr vn \<Rightarrow>
                         pi_eval_sweep env gamma policy ss
                           (v(s \<mapsto> reward + gamma * vn),
                            max delta \<bar>v_old - (reward + gamma * vn)\<bar>)))))"

text \<open>The inner \<^verbatim>\<open>while True\<close> loop, lines 98 to 110.\<close>

partial_function (option) pi_eval :: "env \<Rightarrow> real \<Rightarrow> real \<Rightarrow> policy \<Rightarrow> vtable \<Rightarrow>
    (error + vtable) option" where
  "pi_eval env gamma theta policy v =
     (case pi_eval_sweep env gamma policy (states env) (v, 0) of
        Inl e \<Rightarrow> Some (Inl e)
      | Inr (v', delta) \<Rightarrow>
          if delta < theta then Some (Inr v') else pi_eval env gamma theta policy v')"

text \<open>
  Policy improvement, lines 117 to 133 (and 178 to 190): the loop state is
  \<open>(policy, policy_stable)\<close>.
\<close>

fun pi_improve :: "env \<Rightarrow> real \<Rightarrow> vtable \<Rightarrow> pos list \<Rightarrow> policy \<times> bool \<Rightarrow>
    error + (policy \<times> bool)" where
  "pi_improve env gamma v [] st = Inr st"
| "pi_improve env gamma v (s # ss) (policy, policy_stable) =
     (if s = goal_pos env then pi_improve env gamma v ss (policy, policy_stable)
      else case dict_get policy s of
        Inl e \<Rightarrow> Inl e
      | Inr old_action \<Rightarrow>
          (case action_values env gamma v s (action_keys env) [] of
             Inl e \<Rightarrow> Inl e
           | Inr av \<Rightarrow>
               (case dict_argmax av of
                  Inl e \<Rightarrow> Inl e
                | Inr best_action \<Rightarrow>
                    pi_improve env gamma v ss
                      (policy(s \<mapsto> best_action),
                       if old_action \<noteq> best_action then False else policy_stable))))"

text \<open>The outer \<^verbatim>\<open>while True\<close> loop, lines 93 to 137.\<close>

partial_function (option) pi_loop :: "env \<Rightarrow> real \<Rightarrow> real \<Rightarrow> vtable \<Rightarrow> policy \<Rightarrow> vtable list \<Rightarrow>
    (error + (vtable \<times> policy \<times> vtable list)) option" where
  "pi_loop env gamma theta v policy history =
     Option.bind (pi_eval env gamma theta policy v) (\<lambda>r.
       case r of
         Inl e \<Rightarrow> Some (Inl e)
       | Inr v' \<Rightarrow>
           (case pi_improve env gamma v' (states env) (policy, True) of
              Inl e \<Rightarrow> Some (Inl e)
            | Inr (policy', policy_stable) \<Rightarrow>
                if policy_stable then Some (Inr (v', policy', history @ [v']))
                else pi_loop env gamma theta v' policy' (history @ [v'])))"

definition policy_iteration :: "env \<Rightarrow> real \<Rightarrow> real \<Rightarrow> rng \<Rightarrow>
    (error + (vtable \<times> policy \<times> vtable list)) option" where
  "policy_iteration env gamma theta g =
     (case random_policy env (states env) (Map.empty, g) of
        Inl e \<Rightarrow> Some (Inl e)
      | Inr (policy, _) \<Rightarrow>
          (let policy = policy(goal_pos env \<mapsto> []);
               v = const_table (states env) 0;
               history = [v]
           in pi_loop env gamma theta v policy history))"

subsection \<open>Truncated policy iteration\<close>

text \<open>
  One evaluation sweep of \<^verbatim>\<open>truncated_policy_iteration\<close>, lines 167 to 171:
  \<open>v_old\<close> is the copy made on line 166.
\<close>

fun tpi_eval_sweep :: "env \<Rightarrow> real \<Rightarrow> policy \<Rightarrow> vtable \<Rightarrow> pos list \<Rightarrow> vtable \<Rightarrow>
    error + vtable" where
  "tpi_eval_sweep env gamma policy v_old [] v = Inr v"
| "tpi_eval_sweep env gamma policy v_old (s # ss) v =
     (if s = goal_pos env then tpi_eval_sweep env gamma policy v_old ss v
      else case dict_get policy s of
        Inl e \<Rightarrow> Inl e
      | Inr a \<Rightarrow>
          (case step env s a of
             Inl e \<Rightarrow> Inl e
           | Inr (next_s, reward, _) \<Rightarrow>
               (case dict_get v_old next_s of
                  Inl e \<Rightarrow> Inl e
                | Inr vn \<Rightarrow>
                    tpi_eval_sweep env gamma policy v_old ss (v(s \<mapsto> reward + gamma * vn)))))"

text \<open>
  The loop \<^verbatim>\<open>for _ in range(j_truncate)\<close>, lines 165 to 171; the count is a natural
  number.
\<close>

fun tpi_eval :: "env \<Rightarrow> real \<Rightarrow> policy \<Rightarrow> nat \<Rightarrow> vtable \<Rightarrow> error + vtable" where
  "tpi_eval env gamma policy 0 v = Inr v"
| "tpi_eval env gamma policy (Suc j) v =
     (case tpi_eval_sweep env gamma policy v (states env) v of
        Inl e \<Rightarrow> Inl e
      | Inr v' \<Rightarrow> tpi_eval env gamma policy j v')"

text \<open>The outer \<^verbatim>\<open>while True\<close> loop, lines 160 to 194.\<close>

partial_function (option) tpi_loop :: "env \<Rightarrow> real \<Rightarrow> nat \<Rightarrow> vtable \<Rightarrow> policy \<Rightarrow> vtable list \<Rightarrow>
    (error + (vtable \<times> policy \<times> vtable list)) option" where
  "tpi_loop env gamma j_truncate v policy history =
     (case tpi_eval env gamma policy j_truncate v of
        Inl e \<Rightarrow> Some (Inl e)
      | Inr v' \<Rightarrow>
          (case pi_improve env gamma v' (states env) (policy, True) of
             Inl e \<Rightarrow> Some (Inl e)
           | Inr (policy', policy_stable) \<Rightarrow>
               if policy_stable then Some (Inr (v', policy', history @ [v']))
               else tpi_loop env gamma j_truncate v' policy' (history @ [v'])))"

definition truncated_policy_iteration :: "env \<Rightarrow> real \<Rightarrow> nat \<Rightarrow> rng \<Rightarrow>
    (error + (vtable \<times> policy \<times> vtable list)) option" where
  "truncated_policy_iteration env gamma j_truncate g =
     (case random_policy env (states env) (Map.empty, g) of
        Inl e \<Rightarrow> Some (Inl e)
      | Inr (policy, _) \<Rightarrow>
          (let policy = policy(goal_pos env \<mapsto> []);
               v = const_table (states env) 0;
               history = [v]
           in tpi_loop env gamma j_truncate v policy history))"

text \<open>
  The evaluation update for a fixed policy in the spec's words: \<open>x\<close> is
  \<open>reward(s, \<pi>[s]) + \<gamma> \<cdot> V[next(s, \<pi>[s])]\<close> with \<open>V\<close> the table \<open>snapshot\<close>.
\<close>

definition policy_backup :: "env \<Rightarrow> real \<Rightarrow> policy \<Rightarrow> vtable \<Rightarrow> pos \<Rightarrow> real option \<Rightarrow> bool" where
  "policy_backup env gamma policy snapshot s x \<longleftrightarrow>
     (\<exists>a q. policy s = Some a \<and> q_value env gamma snapshot s a = Some q \<and> x = Some q)"

text \<open>One sweep as a step on results, an error staying an error.\<close>

definition tpi_sweep_step :: "env \<Rightarrow> real \<Rightarrow> policy \<Rightarrow> error + vtable \<Rightarrow> error + vtable" where
  "tpi_sweep_step env gamma policy r =
     (case r of Inl e \<Rightarrow> Inl e | Inr v \<Rightarrow> tpi_eval_sweep env gamma policy v (states env) v)"

text \<open>
  A greedy action in the spec's words: \<open>x\<close> is an action of the environment whose
  Bellman right-hand side under \<open>v\<close> is at least that of every other action.
\<close>

definition greedy_at :: "env \<Rightarrow> real \<Rightarrow> vtable \<Rightarrow> pos \<Rightarrow> action option \<Rightarrow> bool" where
  "greedy_at env gamma v s x \<longleftrightarrow>
     (\<exists>a. x = Some a \<and> a \<in> set (action_keys env) \<and>
        (\<forall>b \<in> set (action_keys env).
           q_value env gamma v s b \<noteq> None \<and>
           the (q_value env gamma v s b) \<le> the (q_value env gamma v s a)))"

text \<open>The largest absolute change between two tables over the non-goal states of a list.\<close>

definition max_change :: "env \<Rightarrow> pos list \<Rightarrow> vtable \<Rightarrow> vtable \<Rightarrow> real" where
  "max_change env ss v v' =
     Max (insert 0 ((\<lambda>s. \<bar>the (v s) - the (v' s)\<bar>) ` {s \<in> set ss. s \<noteq> goal_pos env}))"

section \<open>Temporal-difference learners (Homework2/source/algorithm.py)\<close>

subsection \<open>The action-value table\<close>

text \<open>
  A row is the dictionary from actions to values of one state; the table is the
  \<^verbatim>\<open>defaultdict\<close> from states to rows, in insertion order. Looking a state up that has
  no row yet stores the default row, \<^verbatim>\<open>{action: 0.0 for action in env.action_keys}\<close>.
\<close>

type_synonym row = "(action \<times> real) list"
type_synonym qtable = "(pos \<times> row) list"

definition default_row :: "env \<Rightarrow> row" where
  "default_row env = fold (\<lambda>a d. dict_set a 0 d) (action_keys env) []"

text \<open>
  What a run leaves behind besides its result, for stating which calls and assignments
  happened: a state handed to \<^verbatim>\<open>choose_action_e_greedy\<close>, a triple appended to the
  trajectory buffer, a value assigned to \<^verbatim>\<open>q_table[s][a]\<close>. The program never reads it.
\<close>

datatype event = Chose pos | Stored pos action real | Wrote pos action real

text \<open>
  The mutable state a learner works on: its table, the random source, and the record of
  events so far (oldest first).
\<close>

record learner =
  q_table :: qtable
  rand :: rng
  trace :: "event list"

text \<open>\<^verbatim>\<open>q_table[s]\<close>: the row, stored first if it was missing.\<close>

definition q_row :: "env \<Rightarrow> learner \<Rightarrow> pos \<Rightarrow> row \<times> learner" where
  "q_row env w s =
     (case map_of (q_table w) s of
        Some r \<Rightarrow> (r, w)
      | None \<Rightarrow> (default_row env, w\<lparr>q_table := dict_set s (default_row env) (q_table w)\<rparr>))"

text \<open>Reading \<^verbatim>\<open>q_table[s][a]\<close>.\<close>

definition q_read :: "env \<Rightarrow> learner \<Rightarrow> pos \<Rightarrow> action \<Rightarrow> error + (real \<times> learner)" where
  "q_read env w s a =
     (case q_row env w s of
        (r, w') \<Rightarrow> (case map_of r a of None \<Rightarrow> Inl KeyError | Some x \<Rightarrow> Inr (x, w')))"

text \<open>The assignment \<^verbatim>\<open>q_table[s][a] = x\<close>.\<close>

definition q_write :: "env \<Rightarrow> learner \<Rightarrow> pos \<Rightarrow> action \<Rightarrow> real \<Rightarrow> learner" where
  "q_write env w s a x =
     (case q_row env w s of
        (r, w') \<Rightarrow> w'\<lparr>q_table := dict_set s (dict_set a x r) (q_table w'),
                      trace := trace w' @ [Wrote s a x]\<rparr>)"

text \<open>\<^verbatim>\<open>max(xs)\<close> of a sequence of numbers.\<close>

definition py_max :: "real list \<Rightarrow> error + real" where
  "py_max xs = (case xs of [] \<Rightarrow> Inl EmptyMax | x # rest \<Rightarrow> Inr (fold max rest x))"

text \<open>\<^verbatim>\<open>choose_action_e_greedy\<close>, lines 22 to 40.\<close>

definition choose_action_e_greedy :: "env \<Rightarrow> learner \<Rightarrow> pos \<Rightarrow> action list \<Rightarrow> real \<Rightarrow>
    error + (action \<times> learner)" where
  "choose_action_e_greedy env w0 state acts epsilon =
     (let w = w0\<lparr>trace := trace w0 @ [Chose state]\<rparr> in
      case random_uniform (rand w) of
        (u, g) \<Rightarrow>
          if u < epsilon
          then (case random_choice acts g of
                  Inl e \<Rightarrow> Inl e
                | Inr (a, g') \<Rightarrow> Inr (a, w\<lparr>rand := g'\<rparr>))
          else (case q_row env w state of
                  (q_values, w') \<Rightarrow>
                    (case py_max (map snd q_values) of
                       Inl e \<Rightarrow> Inl e
                     | Inr max_q \<Rightarrow>
                         (let best_actions = map fst (filter (\<lambda>(a, q). q = max_q) q_values) in
                          case random_choice best_actions g of
                            Inl e \<Rightarrow> Inl e
                          | Inr (a, g') \<Rightarrow> Inr (a, w'\<lparr>rand := g'\<rparr>)))))"

text \<open>
  The final policy, \<^verbatim>\<open>{s: max(q_table[s], key=q_table[s].get) for s in q_table}\<close>: one
  entry per row of the table, in the table's order.
\<close>

fun derive_policy :: "qtable \<Rightarrow> error + (pos \<times> action) list" where
  "derive_policy [] = Inr []"
| "derive_policy ((s, r) # q) =
     (case dict_argmax r of
        Inl e \<Rightarrow> Inl e
      | Inr a \<Rightarrow> (case derive_policy q of Inl e \<Rightarrow> Inl e | Inr p \<Rightarrow> Inr ((s, a) # p)))"

text \<open>The learner state at the start of training: an empty table.\<close>

definition fresh :: "rng \<Rightarrow> learner" where
  "fresh g = \<lparr> q_table = [], rand = g, trace = [] \<rparr>"

subsection \<open>Q-learning\<close>

text \<open>One pass through the body of \<^verbatim>\<open>while not done\<close>, lines 65 to 82.\<close>

definition q_learning_step :: "env \<Rightarrow> real \<Rightarrow> real \<Rightarrow> real \<Rightarrow> pos \<Rightarrow> real \<Rightarrow> learner \<Rightarrow>
    error + (pos \<times> real \<times> bool \<times> learner)" where
  "q_learning_step env alpha gamma epsilon state total_reward w =
     (case choose_action_e_greedy env w state (action_keys env) epsilon of
        Inl e \<Rightarrow> Inl e
      | Inr (a, w1) \<Rightarrow>
     (case step env state a of
        Inl e \<Rightarrow> Inl e
      | Inr (next_state, reward, done) \<Rightarrow>
     (case q_read env w1 state a of
        Inl e \<Rightarrow> Inl e
      | Inr (old_value, w2) \<Rightarrow>
     (case q_row env w2 next_state of
        (next_row, w3) \<Rightarrow>
     (case py_max (map snd next_row) of
        Inl e \<Rightarrow> Inl e
      | Inr next_max \<Rightarrow>
          (let td_target = reward + gamma * next_max;
               td_error = td_target - old_value;
               w4 = q_write env w3 state a (old_value + alpha * td_error)
           in Inr (next_state, total_reward + reward, done, w4)))))))"

text \<open>The loop \<^verbatim>\<open>while not done\<close> of one episode; \<open>done\<close> is false on entry.\<close>

partial_function (option) q_learning_episode :: "env \<Rightarrow> real \<Rightarrow> real \<Rightarrow> real \<Rightarrow> pos \<Rightarrow> real \<Rightarrow>
    learner \<Rightarrow> (error + (real \<times> learner)) option" where
  "q_learning_episode env alpha gamma epsilon state total_reward w =
     (case q_learning_step env alpha gamma epsilon state total_reward w of
        Inl e \<Rightarrow> Some (Inl e)
      | Inr (next_state, total_reward', done, w') \<Rightarrow>
          if done then Some (Inr (total_reward', w'))
          else q_learning_episode env alpha gamma epsilon next_state total_reward' w')"

text \<open>The loop over the episodes, lines 59 to 84.\<close>

fun q_learning_episodes :: "env \<Rightarrow> real \<Rightarrow> real \<Rightarrow> real \<Rightarrow> nat \<Rightarrow> real list \<Rightarrow> learner \<Rightarrow>
    (error + (real list \<times> learner)) option" where
  "q_learning_episodes env alpha gamma epsilon 0 history w = Some (Inr (history, w))"
| "q_learning_episodes env alpha gamma epsilon (Suc n) history w =
     (case q_learning_episode env alpha gamma epsilon (start_pos env) 0 w of
        None \<Rightarrow> None
      | Some (Inl e) \<Rightarrow> Some (Inl e)
      | Some (Inr (total_reward, w')) \<Rightarrow>
          q_learning_episodes env alpha gamma epsilon n (history @ [total_reward]) w')"

text \<open>
  What a learner returns: the learner state, whose \<open>q_table\<close> is the returned table, the
  derived policy and the reward history.
\<close>

definition finish :: "(error + (real list \<times> learner)) option \<Rightarrow>
    (error + (learner \<times> (pos \<times> action) list \<times> real list)) option" where
  "finish r =
     (case r of
        None \<Rightarrow> None
      | Some (Inl e) \<Rightarrow> Some (Inl e)
      | Some (Inr (history, w)) \<Rightarrow>
          (case derive_policy (q_table w) of
             Inl e \<Rightarrow> Some (Inl e)
           | Inr policy \<Rightarrow> Some (Inr (w, policy, history))))"

definition q_learning :: "env \<Rightarrow> nat \<Rightarrow> real \<Rightarrow> real \<Rightarrow> real \<Rightarrow> rng \<Rightarrow>
    (error + (learner \<times> (pos \<times> action) list \<times> real list)) option" where
  "q_learning env episodes alpha gamma epsilon g =
     finish (q_learning_episodes env alpha gamma epsilon episodes [] (fresh g))"

subsection \<open>SARSA\<close>

text \<open>One pass through the body of \<^verbatim>\<open>while not done\<close>, lines 112 to 131.\<close>

definition sarsa_step :: "env \<Rightarrow> real \<Rightarrow> real \<Rightarrow> real \<Rightarrow> pos \<Rightarrow> action \<Rightarrow> real \<Rightarrow> learner \<Rightarrow>
    error + (pos \<times> action \<times> real \<times> bool \<times> learner)" where
  "sarsa_step env alpha gamma epsilon state a total_reward w =
     (case step env state a of
        Inl e \<Rightarrow> Inl e
      | Inr (next_state, reward, done) \<Rightarrow>
     (case choose_action_e_greedy env w next_state (action_keys env) epsilon of
        Inl e \<Rightarrow> Inl e
      | Inr (next_action, w1) \<Rightarrow>
     (case q_read env w1 state a of
        Inl e \<Rightarrow> Inl e
      | Inr (old_value, w2) \<Rightarrow>
     (case q_read env w2 next_state next_action of
        Inl e \<Rightarrow> Inl e
      | Inr (next_value, w3) \<Rightarrow>
          (let td_target = reward + gamma * next_value;
               td_error = td_target - old_value;
               w4 = q_write env w3 state a (old_value + alpha * td_error)
           in Inr (next_state, next_action, total_reward + reward, done, w4))))))"

partial_function (option) sarsa_loop :: "env \<Rightarrow> real \<Rightarrow> real \<Rightarrow> real \<Rightarrow> pos \<Rightarrow> action \<Rightarrow> real \<Rightarrow>
    learner \<Rightarrow> (error + (real \<times> learner)) option" where
  "sarsa_loop env alpha gamma epsilon state a total_reward w =
     (case sarsa_step env alpha gamma epsilon state a total_reward w of
        Inl e \<Rightarrow> Some (Inl e)
      | Inr (next_state, next_action, total_reward', done, w') \<Rightarrow>
          if done then Some (Inr (total_reward', w'))
          else sarsa_loop env alpha gamma epsilon next_state next_action total_reward' w')"

text \<open>One episode, lines 104 to 131: the first action is chosen before the loop.\<close>

definition sarsa_episode :: "env \<Rightarrow> real \<Rightarrow> real \<Rightarrow> real \<Rightarrow> learner \<Rightarrow>
    (error + (real \<times> learner)) option" where
  "sarsa_episode env alpha gamma epsilon w =
     (case choose_action_e_greedy env w (start_pos env) (action_keys env) epsilon of
        Inl e \<Rightarrow> Some (Inl e)
      | Inr (a, w1) \<Rightarrow> sarsa_loop env alpha gamma epsilon (start_pos env) a 0 w1)"

fun sarsa_episodes :: "env \<Rightarrow> real \<Rightarrow> real \<Rightarrow> real \<Rightarrow> nat \<Rightarrow> real list \<Rightarrow> learner \<Rightarrow>
    (error + (real list \<times> learner)) option" where
  "sarsa_episodes env alpha gamma epsilon 0 history w = Some (Inr (history, w))"
| "sarsa_episodes env alpha gamma epsilon (Suc n) history w =
     (case sarsa_episode env alpha gamma epsilon w of
        None \<Rightarrow> None
      | Some (Inl e) \<Rightarrow> Some (Inl e)
      | Some (Inr (total_reward, w')) \<Rightarrow>
          sarsa_episodes env alpha gamma epsilon n (history @ [total_reward]) w')"

definition sarsa :: "env \<Rightarrow> nat \<Rightarrow> real \<Rightarrow> real \<Rightarrow> real \<Rightarrow> rng \<Rightarrow>
    (error + (learner \<times> (pos \<times> action) list \<times> real list)) option" where
  "sarsa env episodes alpha gamma epsilon g =
     finish (sarsa_episodes env alpha gamma epsilon episodes [] (fresh g))"

subsection \<open>Expected SARSA\<close>

text \<open>
  The loop over \<^verbatim>\<open>env.action_keys\<close> that accumulates \<^verbatim>\<open>expected_q\<close>, lines 169 to 175.
\<close>

fun expected_q_loop :: "real \<Rightarrow> nat \<Rightarrow> action \<Rightarrow> row \<Rightarrow> action list \<Rightarrow> real \<Rightarrow> error + real" where
  "expected_q_loop epsilon num_actions best_action next_q_values [] expected_q = Inr expected_q"
| "expected_q_loop epsilon num_actions best_action next_q_values (a # as) expected_q =
     (let prob = (if a = best_action then 1 - epsilon + epsilon / real num_actions
                  else epsilon / real num_actions)
      in case map_of next_q_values a of
           None \<Rightarrow> Inl KeyError
         | Some x \<Rightarrow>
             expected_q_loop epsilon num_actions best_action next_q_values as
               (expected_q + prob * x))"

text \<open>One pass through the body of \<^verbatim>\<open>while not done\<close>, lines 157 to 181.\<close>

definition expected_sarsa_step :: "env \<Rightarrow> real \<Rightarrow> real \<Rightarrow> real \<Rightarrow> pos \<Rightarrow> real \<Rightarrow> learner \<Rightarrow>
    error + (pos \<times> real \<times> bool \<times> learner)" where
  "expected_sarsa_step env alpha gamma epsilon state total_reward w =
     (case choose_action_e_greedy env w state (action_keys env) epsilon of
        Inl e \<Rightarrow> Inl e
      | Inr (a, w1) \<Rightarrow>
     (case step env state a of
        Inl e \<Rightarrow> Inl e
      | Inr (next_state, reward, done) \<Rightarrow>
     (case q_read env w1 state a of
        Inl e \<Rightarrow> Inl e
      | Inr (old_value, w2) \<Rightarrow>
     (case q_row env w2 next_state of
        (next_q_values, w3) \<Rightarrow>
     (case dict_argmax next_q_values of
        Inl e \<Rightarrow> Inl e
      | Inr best_action \<Rightarrow>
     (case expected_q_loop epsilon (length (action_keys env)) best_action next_q_values
             (action_keys env) 0 of
        Inl e \<Rightarrow> Inl e
      | Inr expected_q \<Rightarrow>
          (let td_target = reward + gamma * expected_q;
               td_error = td_target - old_value;
               w4 = q_write env w3 state a (old_value + alpha * td_error)
           in Inr (next_state, total_reward + reward, done, w4))))))))"

partial_function (option) expected_sarsa_episode :: "env \<Rightarrow> real \<Rightarrow> real \<Rightarrow> real \<Rightarrow> pos \<Rightarrow> real \<Rightarrow>
    learner \<Rightarrow> (error + (real \<times> learner)) option" where
  "expected_sarsa_episode env alpha gamma epsilon state total_reward w =
     (case expected_sarsa_step env alpha gamma epsilon state total_reward w of
        Inl e \<Rightarrow> Some (Inl e)
      | Inr (next_state, total_reward', done, w') \<Rightarrow>
          if done then Some (Inr (total_reward', w'))
          else expected_sarsa_episode env alpha gamma epsilon next_state total_reward' w')"

fun expected_sarsa_episodes :: "env \<Rightarrow> real \<Rightarrow> real \<Rightarrow> real \<Rightarrow> nat \<Rightarrow> real list \<Rightarrow> learner \<Rightarrow>
    (error + (real list \<times> learner)) option" where
  "expected_sarsa_episodes env alpha gamma epsilon 0 history w = Some (Inr (history, w))"
| "expected_sarsa_episodes env alpha gamma epsilon (Suc n) history w =
     (case expected_sarsa_episode env alpha gamma epsilon (start_pos env) 0 w of
        None \<Rightarrow> None
      | Some (Inl e) \<Rightarrow> Some (Inl e)
      | Some (Inr (total_reward, w')) \<Rightarrow>
          expected_sarsa_episodes env alpha gamma epsilon n (history @ [total_reward]) w')"

definition expected_sarsa :: "env \<Rightarrow> nat \<Rightarrow> real \<Rightarrow> real \<Rightarrow> real \<Rightarrow> rng \<Rightarrow>
    (error + (learner \<times> (pos \<times> action) list \<times> real list)) option" where
  "expected_sarsa env episodes alpha gamma epsilon g =
     finish (expected_sarsa_episodes env alpha gamma epsilon episodes [] (fresh g))"

subsection \<open>N-step SARSA\<close>

text \<open>
  The trajectory buffer is the deque of \<open>(state, action, reward)\<close> triples, oldest first.
  The counts \<^verbatim>\<open>n_steps\<close>, \<^verbatim>\<open>episodes\<close> and \<^verbatim>\<open>max_steps_per_episode\<close> are natural
  numbers. Inside the loop the variable \<^verbatim>\<open>action\<close> is an action or \<^verbatim>\<open>None\<close>.
\<close>

type_synonym trajectory = "(pos \<times> action \<times> real) list"

text \<open>
  The return \<open>G\<close> accumulated by \<^verbatim>\<open>for i in range(k): G += (gamma ** i) * trajectory[i][2]\<close>,
  lines 236 to 240 with \<open>k = n_steps\<close> and lines 269 to 272 with \<open>k = len(trajectory)\<close>.
\<close>

definition n_step_return :: "real \<Rightarrow> trajectory \<Rightarrow> nat \<Rightarrow> real" where
  "n_step_return gamma traj k = fold (\<lambda>i G. G + gamma ^ i * snd (snd (traj ! i))) [0..<k] 0"

text \<open>Lines 224 to 228: the next action, chosen only when the step was not terminal.\<close>

definition n_step_next_action :: "env \<Rightarrow> real \<Rightarrow> pos \<Rightarrow> bool \<Rightarrow> learner \<Rightarrow>
    error + (action option \<times> learner)" where
  "n_step_next_action env epsilon next_state done w =
     (if \<not> done
      then (case choose_action_e_greedy env w next_state (action_keys env) epsilon of
              Inl e \<Rightarrow> Inl e
            | Inr (a, w') \<Rightarrow> Inr (Some a, w'))
      else Inr (None, w))"

text \<open>
  Lines 231 to 255: once the buffer holds \<^verbatim>\<open>n_steps\<close> entries, the oldest one is
  updated towards \<open>G\<close>, with the bootstrap term only when the step was not terminal, and
  leaves the buffer.
\<close>

definition n_step_update :: "env \<Rightarrow> nat \<Rightarrow> real \<Rightarrow> real \<Rightarrow> pos \<Rightarrow> action option \<Rightarrow> bool \<Rightarrow>
    trajectory \<Rightarrow> learner \<Rightarrow> error + (trajectory \<times> learner)" where
  "n_step_update env n_steps alpha gamma next_state next_action done traj w =
     (if n_steps \<le> length traj
      then (case traj of
              [] \<Rightarrow> Inl IndexError
            | (s_tau, a_tau, _) # rest \<Rightarrow>
                (case (if \<not> done
                       then (case next_action of
                               None \<Rightarrow> Inl KeyError
                             | Some a' \<Rightarrow>
                                 (case q_read env w next_state a' of
                                    Inl e \<Rightarrow> Inl e
                                  | Inr (x, w1) \<Rightarrow>
                                      Inr (n_step_return gamma traj n_steps + gamma ^ n_steps * x, w1)))
                       else Inr (n_step_return gamma traj n_steps, w)) of
                   Inl e \<Rightarrow> Inl e
                 | Inr (G, w1) \<Rightarrow>
                     (case q_read env w1 s_tau a_tau of
                        Inl e \<Rightarrow> Inl e
                      | Inr (old_value, w2) \<Rightarrow>
                          Inr (rest, q_write env w2 s_tau a_tau (old_value + alpha * (G - old_value))))))
      else Inr (traj, w))"

text \<open>
  One pass through the body of the main loop, lines 216 to 260. Handing \<^verbatim>\<open>None\<close> to
  \<^verbatim>\<open>env.step\<close> is an action outside the action set.
\<close>

definition n_step_body :: "env \<Rightarrow> nat \<Rightarrow> real \<Rightarrow> real \<Rightarrow> real \<Rightarrow> pos \<Rightarrow> action option \<Rightarrow> real \<Rightarrow>
    trajectory \<Rightarrow> learner \<Rightarrow>
    error + (pos \<times> action option \<times> real \<times> bool \<times> trajectory \<times> learner)" where
  "n_step_body env n_steps alpha gamma epsilon state act total_reward traj w =
     (case act of
        None \<Rightarrow> Inl InvalidAction
      | Some a \<Rightarrow>
     (case step env state a of
        Inl e \<Rightarrow> Inl e
      | Inr (next_state, reward, done) \<Rightarrow>
     (case n_step_next_action env epsilon next_state done
             (w\<lparr>trace := trace w @ [Stored state a reward]\<rparr>) of
        Inl e \<Rightarrow> Inl e
      | Inr (next_action, w1) \<Rightarrow>
     (case n_step_update env n_steps alpha gamma next_state next_action done
             (traj @ [(state, a, reward)]) w1 of
        Inl e \<Rightarrow> Inl e
      | Inr (traj', w2) \<Rightarrow>
          Inr (next_state, next_action, total_reward + reward, done, traj', w2)))))"

text \<open>
  The main loop \<^verbatim>\<open>while not done and step_counter < max_steps_per_episode\<close>, lines 215
  to 260. It returns the loop variables as the loop leaves them.
\<close>

function n_step_loop :: "env \<Rightarrow> nat \<Rightarrow> real \<Rightarrow> real \<Rightarrow> real \<Rightarrow> nat \<Rightarrow> pos \<Rightarrow> action option \<Rightarrow>
    real \<Rightarrow> bool \<Rightarrow> trajectory \<Rightarrow> nat \<Rightarrow> learner \<Rightarrow>
    error + (pos \<times> action option \<times> real \<times> bool \<times> trajectory \<times> nat \<times> learner)" where
  "n_step_loop env n_steps alpha gamma epsilon max_steps state act total_reward done traj
       step_counter w =
     (if \<not> done \<and> step_counter < max_steps
      then (case n_step_body env n_steps alpha gamma epsilon state act total_reward traj w of
              Inl e \<Rightarrow> Inl e
            | Inr (next_state, next_action, total_reward', done', traj', w') \<Rightarrow>
                n_step_loop env n_steps alpha gamma epsilon max_steps next_state next_action
                  total_reward' done' traj' (Suc step_counter) w')
      else Inr (state, act, total_reward, done, traj, step_counter, w))"
  by pat_completeness auto
termination
  by (relation "measure (\<lambda>(env, n_steps, alpha, gamma, epsilon, max_steps, state, act,
        total_reward, done, traj, step_counter, w). max_steps - step_counter)") auto

text \<open>The drain loop \<^verbatim>\<open>while len(trajectory) > 0\<close>, lines 264 to 280.\<close>

fun n_step_drain :: "env \<Rightarrow> real \<Rightarrow> real \<Rightarrow> trajectory \<Rightarrow> learner \<Rightarrow>
    error + (trajectory \<times> learner)" where
  "n_step_drain env alpha gamma [] w = Inr ([], w)"
| "n_step_drain env alpha gamma ((s_tau, a_tau, r) # rest) w =
     (let G = n_step_return gamma ((s_tau, a_tau, r) # rest) (length ((s_tau, a_tau, r) # rest))
      in case q_read env w s_tau a_tau of
           Inl e \<Rightarrow> Inl e
         | Inr (old_value, w1) \<Rightarrow>
             n_step_drain env alpha gamma rest
               (q_write env w1 s_tau a_tau (old_value + alpha * (G - old_value))))"

text \<open>
  One episode, lines 204 to 280. The result is the episode's reward, the buffer as the
  drain loop leaves it, and the learner state.
\<close>

definition n_step_episode :: "env \<Rightarrow> nat \<Rightarrow> real \<Rightarrow> real \<Rightarrow> real \<Rightarrow> nat \<Rightarrow> learner \<Rightarrow>
    error + (real \<times> trajectory \<times> learner)" where
  "n_step_episode env n_steps alpha gamma epsilon max_steps w =
     (case choose_action_e_greedy env w (start_pos env) (action_keys env) epsilon of
        Inl e \<Rightarrow> Inl e
      | Inr (a, w1) \<Rightarrow>
     (case n_step_loop env n_steps alpha gamma epsilon max_steps (start_pos env) (Some a) 0
             False [] 0 w1 of
        Inl e \<Rightarrow> Inl e
      | Inr (state, act, total_reward, done, traj, step_counter, w2) \<Rightarrow>
     (case n_step_drain env alpha gamma traj w2 of
        Inl e \<Rightarrow> Inl e
      | Inr (traj', w3) \<Rightarrow> Inr (total_reward, traj', w3))))"

fun n_step_episodes :: "env \<Rightarrow> nat \<Rightarrow> real \<Rightarrow> real \<Rightarrow> real \<Rightarrow> nat \<Rightarrow> nat \<Rightarrow> real list \<Rightarrow>
    learner \<Rightarrow> error + (real list \<times> learner)" where
  "n_step_episodes env n_steps alpha gamma epsilon max_steps 0 history w = Inr (history, w)"
| "n_step_episodes env n_steps alpha gamma epsilon max_steps (Suc n) history w =
     (case n_step_episode env n_steps alpha gamma epsilon max_steps w of
        Inl e \<Rightarrow> Inl e
      | Inr (total_reward, _, w') \<Rightarrow>
          n_step_episodes env n_steps alpha gamma epsilon max_steps n (history @ [total_reward]) w')"

definition n_step_sarsa :: "env \<Rightarrow> nat \<Rightarrow> nat \<Rightarrow> real \<Rightarrow> real \<Rightarrow> real \<Rightarrow> nat \<Rightarrow> rng \<Rightarrow>
    (error + (learner \<times> (pos \<times> action) list \<times> real list)) option" where
  "n_step_sarsa env n_steps episodes alpha gamma epsilon max_steps g =
     finish (Some (n_step_episodes env n_steps alpha gamma epsilon max_steps episodes [] (fresh g)))"

subsection \<open>Notions for stating the learners' properties\<close>

text \<open>The row a lookup \<^verbatim>\<open>q_table[s]\<close> yields: the stored one, or the default row.\<close>

definition row_of :: "env \<Rightarrow> qtable \<Rightarrow> pos \<Rightarrow> row" where
  "row_of env q s = (case map_of q s of Some r \<Rightarrow> r | None \<Rightarrow> default_row env)"

text \<open>
  An episodic environment: the start is not the goal, and a step from a non-goal state
  reports the end of the episode exactly when it enters the goal.
\<close>

definition episodic :: "env \<Rightarrow> bool" where
  "episodic env \<longleftrightarrow>
     start_pos env \<noteq> goal_pos env \<and>
     (\<forall>s a ns r d. s \<noteq> goal_pos env \<longrightarrow> step env s a = Inr (ns, r, d) \<longrightarrow>
        (d \<longleftrightarrow> ns = goal_pos env))"

text \<open>The goal's row, when the table has one, holds zero for every action.\<close>

definition goal_row_zero :: "env \<Rightarrow> learner \<Rightarrow> bool" where
  "goal_row_zero env w \<longleftrightarrow>
     (\<forall>r. map_of (q_table w) (goal_pos env) = Some r \<longrightarrow> (\<forall>x \<in> snd ` set r. x = 0))"

text \<open>No assignment \<^verbatim>\<open>q_table[goal][a] = x\<close> has happened.\<close>

definition never_wrote_goal :: "env \<Rightarrow> learner \<Rightarrow> bool" where
  "never_wrote_goal env w \<longleftrightarrow> (\<forall>a x. Wrote (goal_pos env) a x \<notin> set (trace w))"

text \<open>
  The goal's row is as a first lookup would create it, and has never been assigned to.
\<close>

definition goal_untouched :: "env \<Rightarrow> learner \<Rightarrow> bool" where
  "goal_untouched env w \<longleftrightarrow>
     row_of env (q_table w) (goal_pos env) = default_row env \<and> never_wrote_goal env w"

text \<open>\<^verbatim>\<open>choose_action_e_greedy\<close> has never been called with the goal as its state.\<close>

definition never_chose_goal :: "env \<Rightarrow> learner \<Rightarrow> bool" where
  "never_chose_goal env w \<longleftrightarrow> Chose (goal_pos env) \<notin> set (trace w)"

text \<open>
  The assignments \<^verbatim>\<open>q_table[s][a] = x\<close> and the triples appended to the trajectory
  buffer that a record of events holds, oldest first, and the \<open>(state, action)\<close> pair
  of a triple.
\<close>

fun writes :: "event list \<Rightarrow> (pos \<times> action \<times> real) list" where
  "writes [] = []"
| "writes (Wrote s a x # es) = (s, a, x) # writes es"
| "writes (_ # es) = writes es"

fun stored :: "event list \<Rightarrow> (pos \<times> action \<times> real) list" where
  "stored [] = []"
| "stored (Stored s a r # es) = (s, a, r) # stored es"
| "stored (_ # es) = stored es"

definition pair_of :: "pos \<times> action \<times> real \<Rightarrow> pos \<times> action" where
  "pair_of e = (fst e, fst (snd e))"

text \<open>
  The discounted sum of the rewards of a buffer in the spec's words:
  \<open>\<Sum> \<gamma>\<^sup>i \<cdot> reward\<^sub>i\<close> over its entries, without a bootstrap term.
\<close>

definition discounted_rewards :: "real \<Rightarrow> trajectory \<Rightarrow> real" where
  "discounted_rewards gamma traj = (\<Sum>i<length traj. gamma ^ i * snd (snd (traj ! i)))"

text \<open>How many times \<^verbatim>\<open>choose_action_e_greedy\<close> has been called with the goal as its state.\<close>

definition chose_goal_count :: "env \<Rightarrow> learner \<Rightarrow> nat" where
  "chose_goal_count env w = length (filter (\<lambda>e. e = Chose (goal_pos env)) (trace w))"

text \<open>What the n-step learner keeps true of the goal: its row is absent.\<close>

definition nstep_safe :: "env \<Rightarrow> learner \<Rightarrow> bool" where
  "nstep_safe env w \<longleftrightarrow>
     goal_untouched env w \<and> never_chose_goal env w \<and>
     goal_pos env \<notin> dom (map_of (q_table w))"

text \<open>
  The assignments \<^verbatim>\<open>q_table[s][a] = x\<close> made, and the triples appended to the buffer,
  between two learner states of which the second continues the first: what the record
  has gained.
\<close>

definition episode_writes :: "learner \<Rightarrow> learner \<Rightarrow> (pos \<times> action \<times> real) list" where
  "episode_writes w w' = drop (length (writes (trace w))) (writes (trace w'))"

definition episode_stored :: "learner \<Rightarrow> learner \<Rightarrow> (pos \<times> action \<times> real) list" where
  "episode_stored w w' = drop (length (stored (trace w))) (stored (trace w'))"





section \<open>Example environments\<close>

text \<open>A corridor of three cells, start on the left and goal on the right, with two actions.\<close>

definition corridor :: cliffwalk where
  "corridor = \<lparr> maze = [[2, 0, 3]], height = 1, width = 3,
     cw_start_pos = (0, 0), cw_goal_pos = (0, 2),
     actions = [''W'' \<mapsto> (0, -1), ''E'' \<mapsto> (0, 1)],
     reward_step = -1, reward_goal = 0, reward_cliff = -100 \<rparr>"

definition corridor_env :: env where
  "corridor_env = CliffWalkEnv corridor [(0, 0), (0, 1), (0, 2)] [''W'', ''E'']"

text \<open>A random source whose every draw is zero: \<^verbatim>\<open>random.choice\<close> picks the first element.\<close>

definition rng0 :: rng where
  "rng0 = \<lparr> uniform_draw = (\<lambda>_. 0), index_draw = (\<lambda>_. 0), drawn = 0 \<rparr>"

text \<open>
  A random source that always explores when \<open>epsilon\<close> is positive and always picks the
  second element.
\<close>

definition rng1 :: rng where
  "rng1 = \<lparr> uniform_draw = (\<lambda>_. 0), index_draw = (\<lambda>_. 1), drawn = 0 \<rparr>"



section \<open>Properties of the cliff-walk step\<close>

lemma maze_step_recognized:
  "actions e a = Some move \<Longrightarrow> \<exists>r. maze_step e p a = Inr r"
  by (auto simp add: maze_step_def Let_def)

text \<open>
  C7, as the code has it. The goal test comes before the action lookup, so at the goal
  \<^verbatim>\<open>step\<close> returns \<open>(goal, 0, True)\<close> whatever the action is. At every other
  state it raises \<open>InvalidAction\<close> exactly when the action is not a key of the action
  dictionary, and returns a triple otherwise.
\<close>

theorem cliff_step_raises_iff:
  "cliff_step e (cw_goal_pos e) a = Inr (cw_goal_pos e, 0, True) \<and>
   (p \<noteq> cw_goal_pos e \<longrightarrow>
      (cliff_step e p a = Inl InvalidAction \<longleftrightarrow> actions e a = None) \<and>
      ((\<exists>r. cliff_step e p a = Inr r) \<longleftrightarrow> actions e a \<noteq> None))"
proof -
  have goal: "cliff_step e (cw_goal_pos e) a = Inr (cw_goal_pos e, 0, True)"
    by (simp add: cliff_step_def)
  have other: "(cliff_step e p a = Inl InvalidAction \<longleftrightarrow> actions e a = None) \<and>
      ((\<exists>r. cliff_step e p a = Inr r) \<longleftrightarrow> actions e a \<noteq> None)" if "p \<noteq> cw_goal_pos e"
  proof (cases "actions e a")
    case None
    with that show ?thesis by (simp add: cliff_step_def)
  next
    case (Some move)
    from maze_step_recognized [OF Some] obtain r where "maze_step e p a = Inr r" by blast
    moreover from Some that
    have "cliff_step e p a = Inr (cw_start_pos e, reward_cliff e, False) \<or>
          cliff_step e p a = maze_step e p a"
      by (simp add: cliff_step_def Let_def)
    ultimately have "\<exists>r'. cliff_step e p a = Inr r'" by metis
    with Some show ?thesis by auto
  qed
  from goal other show ?thesis by blast
qed

theorem cliff_step_raises_iff_witness:
  "(0, 1) \<noteq> cw_goal_pos cliffwalk1 \<and>
   cliff_step cliffwalk1 (0, 1) ''X'' = Inl InvalidAction \<and>
   cliff_step cliffwalk1 (0, 1) ''E'' = Inr ((0, 0), -100, False) \<and>
   cliff_step cliffwalk1 (0, 1) ''S'' = Inr ((1, 1), -1, False) \<and>
   cliff_step cliffwalk1 (1, 2) ''S'' = Inr ((2, 2), 0, True)"
proof -
  have ne: "(0, 1) \<noteq> cw_goal_pos cliffwalk1" by (simp add: cliffwalk1_def)
  have none: "actions cliffwalk1 ''X'' = None" by (simp add: cliffwalk1_def compass_def)
  from cliff_step_raises_iff [of cliffwalk1 "''X''" "(0, 1)"] ne none
  have "cliff_step cliffwalk1 (0, 1) ''X'' = Inl InvalidAction" by blast
  moreover have "cliff_step cliffwalk1 (0, 1) ''E'' = Inr ((0, 0), -100, False)"
    by (simp add: cliff_step_def maze_step_def cliffwalk1_def compass_def in_bounds_def cell_def)
  moreover have "cliff_step cliffwalk1 (0, 1) ''S'' = Inr ((1, 1), -1, False)"
    by (simp add: cliff_step_def maze_step_def cliffwalk1_def compass_def in_bounds_def cell_def)
  moreover have "cliff_step cliffwalk1 (1, 2) ''S'' = Inr ((2, 2), 0, True)"
    by (simp add: cliff_step_def maze_step_def cliffwalk1_def compass_def in_bounds_def cell_def)
  ultimately show ?thesis using ne by blast
qed

text \<open>
  C7 as stated fails at the goal: an unrecognized action there does not raise.
\<close>

theorem cliff_step_goal_counterexample:
  "actions cliffwalk1 ''X'' = None \<and>
   cliff_step cliffwalk1 (2, 2) ''X'' = Inr ((2, 2), 0, True)"
  by (simp add: cliff_step_def cliffwalk1_def compass_def)


section \<open>Dictionaries and the first maximum\<close>


lemma map_of_dict_set: "map_of (dict_set k v d) = (map_of d)(k \<mapsto> v)"
  by (induction d) (auto simp: fun_eq_iff)

lemma map_fst_dict_set:
  "map fst (dict_set k v d) = (if k \<in> set (map fst d) then map fst d else map fst d @ [k])"
  by (induction d) (simp, force)

lemma keys_dict_set: "fst ` set (dict_set k v d) = insert k (fst ` set d)"
  using map_fst_dict_set [of k v d] by (metis Un_insert_right append_Nil2 insert_absorb list.simps(15) set_append set_map)

lemma distinct_dict_set: "distinct (map fst d) \<Longrightarrow> distinct (map fst (dict_set k v d))"
  by (simp add: map_fst_dict_set)

lemma action_values_result:
  "action_values env gamma v s as av = Inr av' \<Longrightarrow>
     (\<forall>a \<in> set as. q_value env gamma v s a \<noteq> None) \<and>
     (\<forall>a. map_of av' a = (if a \<in> set as then q_value env gamma v s a else map_of av a)) \<and>
     fst ` set av' = set as \<union> fst ` set av \<and>
     (distinct (map fst av) \<longrightarrow> distinct (map fst av'))"
proof (induction as arbitrary: av)
  case Nil
  then show ?case by simp
next
  case (Cons a as)
  from Cons.prems obtain next_s reward d vn where
    st: "step env s a = Inr (next_s, reward, d)" and vn: "v next_s = Some vn" and
    rest: "action_values env gamma v s as (dict_set a (reward + gamma * vn) av) = Inr av'"
    by (auto simp: dict_get_def split: sum.splits option.splits)
  have qa: "q_value env gamma v s a = Some (reward + gamma * vn)"
    by (simp add: q_value_def st vn)
  from Cons.IH [OF rest] qa show ?case
    by (auto simp: map_of_dict_set keys_dict_set distinct_dict_set)
qed

lemma argmax_loop_result:
  "argmax_loop d best \<in> set (best # d) \<and> snd (argmax_loop d best) = Max (snd ` set (best # d))"
proof (induction d arbitrary: best)
  case Nil
  then show ?case by simp
next
  case (Cons kq d)
  obtain k q where kq: "kq = (k, q)" by (cases kq)
  let ?b = "if snd best < q then (k, q) else best"
  from Cons.IH [of ?b] have mem: "argmax_loop d ?b \<in> set (?b # d)"
    and mx: "snd (argmax_loop d ?b) = Max (snd ` set (?b # d))" by blast+
  have "Max (snd ` set (?b # d)) = Max (snd ` set (best # kq # d))"
  proof (cases "d = []")
    case True
    then show ?thesis by (auto simp: kq max_def)
  next
    case False
    then have ne: "snd ` set d \<noteq> {}" by simp
    show ?thesis using ne by (auto simp: kq max_def Max_insert)
  qed
  with mem mx show ?case by (auto simp: kq split: if_splits)
qed

lemma dict_argmax_result:
  assumes "dict_argmax d = Inr k"
  shows "\<exists>q. (k, q) \<in> set d \<and> q = Max (snd ` set d)"
proof -
  from assms obtain kq rest where d: "d = kq # rest" and k: "k = fst (argmax_loop rest kq)"
    by (auto simp: dict_argmax_def split: list.splits)
  from argmax_loop_result [of rest kq] show ?thesis
    unfolding d k by (metis prod.collapse)
qed


section \<open>Value iteration reads the snapshot\<close>

lemma greedy_backup_value:
  assumes av: "action_values env gamma snap s (action_keys env) [] = Inr av"
    and best: "dict_argmax av = Inr best"
    and q: "dict_get (map_of av) best = Inr q"
  shows "bellman_max env gamma snap s (Some q)"
proof -
  from action_values_result [OF av]
  have defined: "\<forall>a \<in> set (action_keys env). q_value env gamma snap s a \<noteq> None"
    and lookup: "\<And>a. a \<in> set (action_keys env) \<Longrightarrow> map_of av a = q_value env gamma snap s a"
    and keys: "fst ` set av = set (action_keys env)"
    and dist: "distinct (map fst av)"
    by auto
  from dict_argmax_result [OF best] obtain q' where
    mem: "(best, q') \<in> set av" and mx: "q' = Max (snd ` set av)" by blast
  from mem dist have "map_of av best = Some q'" by simp
  with q have qq: "q = q'" by (simp add: dict_get_def)
  have "snd ` set av = (\<lambda>a. the (q_value env gamma snap s a)) ` set (action_keys env)"
  proof (rule set_eqI, rule iffI)
    fix x assume "x \<in> snd ` set av"
    then obtain a where ax: "(a, x) \<in> set av" by auto
    with dist have "map_of av a = Some x" by simp
    moreover from ax keys have "a \<in> set (action_keys env)" by force
    ultimately show "x \<in> (\<lambda>a. the (q_value env gamma snap s a)) ` set (action_keys env)"
      using lookup by force
  next
    fix x assume "x \<in> (\<lambda>a. the (q_value env gamma snap s a)) ` set (action_keys env)"
    then obtain a where a: "a \<in> set (action_keys env)" and x: "x = the (q_value env gamma snap s a)"
      by auto
    from a keys obtain y where ay: "(a, y) \<in> set av" by force
    with dist have "map_of av a = Some y" by simp
    with lookup [OF a] x have "x = y" by (metis option.sel)
    with ay show "x \<in> snd ` set av" by force
  qed
  moreover from mem keys have "action_keys env \<noteq> []" by auto
  ultimately show ?thesis using defined mx qq by (simp add: bellman_max_def)
qed

lemma bellman_max_unique:
  "bellman_max env gamma snap s x \<Longrightarrow> bellman_max env gamma snap s y \<Longrightarrow> x = y"
  by (simp add: bellman_max_def)

lemma vi_sweep_result:
  "vi_sweep env gamma snap ss (v, pol, delta) = Inr (v', pol', delta') \<Longrightarrow>
     (\<forall>s \<in> set ss. s \<noteq> goal_pos env \<longrightarrow> bellman_max env gamma snap s (v' s)) \<and>
     (\<forall>s. (s \<in> set ss \<longrightarrow> s = goal_pos env) \<longrightarrow> v' s = v s)"
proof (induction ss arbitrary: v pol delta)
  case Nil
  then show ?case by simp
next
  case (Cons s ss)
  show ?case
  proof (cases "s = goal_pos env")
    case True
    with Cons.prems have "vi_sweep env gamma snap ss (v, pol, delta) = Inr (v', pol', delta')"
      by simp
    from Cons.IH [OF this] True show ?thesis by simp
  next
    case False
    with Cons.prems obtain v_old av best q where
      av: "action_values env gamma snap s (action_keys env) [] = Inr av" and
      best: "dict_argmax av = Inr best" and
      q: "dict_get (map_of av) best = Inr q" and
      rest: "vi_sweep env gamma snap ss
               (v(s \<mapsto> q), pol(s \<mapsto> best), max delta \<bar>v_old - q\<bar>) = Inr (v', pol', delta')"
      by (auto split: sum.splits)
    have bq: "bellman_max env gamma snap s (Some q)"
      by (rule greedy_backup_value [OF av best q])
    from Cons.IH [OF rest]
    have ih1: "\<forall>t \<in> set ss. t \<noteq> goal_pos env \<longrightarrow> bellman_max env gamma snap t (v' t)"
      and ih2: "\<forall>t. (t \<in> set ss \<longrightarrow> t = goal_pos env) \<longrightarrow> v' t = (v(s \<mapsto> q)) t" by blast+
    have "bellman_max env gamma snap s (v' s)"
    proof (cases "s \<in> set ss")
      case True
      with ih1 False show ?thesis by blast
    next
      case False
      with ih2 have "v' s = Some q" by (metis fun_upd_same)
      with bq show ?thesis by simp
    qed
    moreover have "v' t = v t" if "t \<in> set (s # ss) \<longrightarrow> t = goal_pos env" for t
    proof -
      from that False have "t \<noteq> s" and "t \<in> set ss \<longrightarrow> t = goal_pos env" by auto
      with ih2 show ?thesis by (metis fun_upd_other)
    qed
    ultimately show ?thesis using ih1 by (metis set_ConsD)
  qed
qed

lemma synchronous_history_snoc:
  assumes "synchronous_history env gamma history" "history \<noteq> []"
    and "\<forall>s \<in> set (states env). s \<noteq> goal_pos env \<longrightarrow> bellman_max env gamma (last history) s (v' s)"
  shows "synchronous_history env gamma (history @ [v'])"
  unfolding synchronous_history_def
proof (intro allI impI ballI)
  fix k s
  assume k: "Suc k < length (history @ [v'])" and s: "s \<in> set (states env)" "s \<noteq> goal_pos env"
  show "bellman_max env gamma ((history @ [v']) ! k) s (((history @ [v']) ! Suc k) s)"
  proof (cases "Suc k < length history")
    case True
    with assms(1) s show ?thesis
      by (simp add: synchronous_history_def nth_append)
  next
    case False
    with k have kk: "Suc k = length history" by simp
    then have "(history @ [v']) ! k = last history"
      using assms(2) by (metis diff_Suc_1 last_conv_nth lessI nth_append)
    moreover from kk have "(history @ [v']) ! Suc k = v'" by simp
    ultimately show ?thesis using assms(3) s by simp
  qed
qed

lemma vi_loop_history:
  assumes "vi_loop env gamma theta v pol history = Some r"
  shows "\<forall>v' pol' history'. r = Inr (v', pol', history') \<longrightarrow>
           history \<noteq> [] \<longrightarrow> last history = v \<longrightarrow> synchronous_history env gamma history \<longrightarrow>
           synchronous_history env gamma history' \<and> last history' = v' \<and>
           length history < length history'"
  using assms
proof (induction env gamma theta v pol history r rule: vi_loop.raw_induct [rotated 1, consumes 1, case_names unfold])
  case (unfold vi_loop env gamma theta v pol history r)
  note 1 = unfold
  show ?case
  proof (intro allI impI)
    fix v' pol' history'
    assume r: "r = Inr (v', pol', history')" and ne: "history \<noteq> []" and lst: "last history = v"
      and sync: "synchronous_history env gamma history"
    show "synchronous_history env gamma history' \<and> last history' = v' \<and>
           length history < length history'"
    proof (cases "vi_sweep env gamma v (states env) (v, pol, 0)")
      case (Inl e)
      with 1(2) r show ?thesis by simp
    next
      case (Inr res)
      obtain v1 pol1 delta where res: "res = (v1, pol1, delta)" by (cases res)
      from vi_sweep_result [OF Inr [unfolded res]] lst
      have "\<forall>s \<in> set (states env). s \<noteq> goal_pos env \<longrightarrow>
              bellman_max env gamma (last history) s (v1 s)" by simp
      from synchronous_history_snoc [OF sync ne this]
      have sync1: "synchronous_history env gamma (history @ [v1])" .
      show ?thesis
      proof (cases "delta < theta")
        case True
        with 1(2) Inr res r sync1 show ?thesis by auto
      next
        case False
        with 1(2) Inr res have "vi_loop env gamma theta v1 pol1 (history @ [v1]) = Some r" by simp
        from 1(1) [OF this] r sync1
        have "synchronous_history env gamma history' \<and> last history' = v' \<and>
           length (history @ [v1]) < length history'" by simp
        then show ?thesis by simp
      qed
    qed
  qed
qed

lemmas corridor_simps = corridor_env_def CliffWalkEnv_def corridor_def cliff_step_def maze_step_def
  in_bounds_def cell_def dict_get_def dict_argmax_def const_table_def

text \<open>
  C1. Every sweep of \<^verbatim>\<open>value_iteration\<close> is synchronous. A sweep started on the table
  \<open>v\<close> leaves at every non-goal state \<open>s\<close> of \<^verbatim>\<open>env.states\<close> the maximum over the
  actions of \<open>reward(s, a) + \<gamma> \<cdot> v[next(s, a)]\<close>, read from \<open>v\<close> as it stood before the
  sweep; and in a run that returns, each table of the history is that update of the table
  before it, the last one being the returned value function.
\<close>

theorem value_iteration_synchronous:
  "(vi_sweep env gamma v (states env) (v, policy, 0) = Inr (v', policy', delta) \<longrightarrow>
      (\<forall>s \<in> set (states env). s \<noteq> goal_pos env \<longrightarrow> bellman_max env gamma v s (v' s))) \<and>
   (value_iteration env gamma theta = Some (Inr (vf, policyf, history)) \<longrightarrow>
      synchronous_history env gamma history \<and> last history = vf)"
proof (intro conjI impI)
  assume "vi_sweep env gamma v (states env) (v, policy, 0) = Inr (v', policy', delta)"
  from vi_sweep_result [OF this]
  show "\<forall>s \<in> set (states env). s \<noteq> goal_pos env \<longrightarrow> bellman_max env gamma v s (v' s)"
    by blast
next
  assume run: "value_iteration env gamma theta = Some (Inr (vf, policyf, history))"
  let ?v0 = "const_table (states env) (0::real)"
  have "synchronous_history env gamma [?v0]" by (simp add: synchronous_history_def)
  with vi_loop_history [OF run [unfolded value_iteration_def Let_def]]
  have both: "synchronous_history env gamma history \<and> last history = vf" by simp
  from both show "synchronous_history env gamma history" by simp
  from both show "last history = vf" by simp
qed

theorem value_iteration_synchronous_witness:
  "vi_sweep corridor_env (9/10) [(0, 0) \<mapsto> 0, (0, 1) \<mapsto> 0, (0, 2) \<mapsto> 0] (states corridor_env)
     ([(0, 0) \<mapsto> 0, (0, 1) \<mapsto> 0, (0, 2) \<mapsto> 0], Map.empty, 0) =
     Inr ([(0, 2) \<mapsto> 0, (0, 0) \<mapsto> - 1, (0, 1) \<mapsto> 0], [(0, 0) \<mapsto> ''W'', (0, 1) \<mapsto> ''E''], 1) \<and>
   bellman_max corridor_env (9/10) [(0, 0) \<mapsto> 0, (0, 1) \<mapsto> 0, (0, 2) \<mapsto> 0] (0, 0) (Some (- 1)) \<and>
   value_iteration corridor_env (9/10) (1/1000000) =
     Some (Inr ([(0, 2) \<mapsto> 0, (0, 0) \<mapsto> - 1, (0, 1) \<mapsto> 0],
                [(0, 2) \<mapsto> [], (0, 0) \<mapsto> ''E'', (0, 1) \<mapsto> ''E''],
                [[(0, 0) \<mapsto> 0, (0, 1) \<mapsto> 0, (0, 2) \<mapsto> 0],
                 [(0, 2) \<mapsto> 0, (0, 0) \<mapsto> - 1, (0, 1) \<mapsto> 0],
                 [(0, 2) \<mapsto> 0, (0, 0) \<mapsto> - 1, (0, 1) \<mapsto> 0]])) \<and>
   synchronous_history corridor_env (9/10)
     [[(0, 0) \<mapsto> 0, (0, 1) \<mapsto> 0, (0, 2) \<mapsto> 0],
      [(0, 2) \<mapsto> 0, (0, 0) \<mapsto> - 1, (0, 1) \<mapsto> 0],
      [(0, 2) \<mapsto> 0, (0, 0) \<mapsto> - 1, (0, 1) \<mapsto> 0]]"
proof -
  let ?v0 = "[(0, 0) \<mapsto> 0, (0, 1) \<mapsto> 0, (0, 2) \<mapsto> (0::real)] :: vtable"
  let ?v1 = "[(0, 2) \<mapsto> 0, (0, 0) \<mapsto> - 1, (0, 1) \<mapsto> (0::real)] :: vtable"
  have sweep: "vi_sweep corridor_env (9/10) ?v0 (states corridor_env) (?v0, Map.empty, 0) =
      Inr (?v1, [(0, 0) \<mapsto> ''W'', (0, 1) \<mapsto> ''E''], 1)"
    by (simp add: corridor_simps)
  have run: "value_iteration corridor_env (9/10) (1/1000000) =
      Some (Inr (?v1, [(0, 2) \<mapsto> [], (0, 0) \<mapsto> ''E'', (0, 1) \<mapsto> ''E''], [?v0, ?v1, ?v1]))"
    apply (simp add: value_iteration_def)
    apply (subst vi_loop.simps)
    apply (simp add: corridor_simps)
    apply (subst vi_loop.simps)
    apply (simp add: corridor_simps)
    done
  have start: "(0, 0) \<in> set (states corridor_env) \<and> (0, 0) \<noteq> goal_pos corridor_env"
    by (simp add: corridor_simps)
  from value_iteration_synchronous [of corridor_env "9/10" ?v0 Map.empty ?v1
      "[(0, 0) \<mapsto> ''W'', (0, 1) \<mapsto> ''E'']" 1 "1/1000000" ?v1
      "[(0, 2) \<mapsto> [], (0, 0) \<mapsto> ''E'', (0, 1) \<mapsto> ''E'']" "[?v0, ?v1, ?v1]"] sweep run start
  have "bellman_max corridor_env (9/10) ?v0 (0, 0) (?v1 (0, 0)) \<and>
        synchronous_history corridor_env (9/10) [?v0, ?v1, ?v1]"
    by blast
  with sweep run show ?thesis by simp
qed


section \<open>Truncated policy evaluation\<close>


lemma tpi_eval_sweep_result:
  "tpi_eval_sweep env gamma policy snap ss v = Inr v' \<Longrightarrow>
     (\<forall>s \<in> set ss. s \<noteq> goal_pos env \<longrightarrow> policy_backup env gamma policy snap s (v' s)) \<and>
     (\<forall>s. (s \<in> set ss \<longrightarrow> s = goal_pos env) \<longrightarrow> v' s = v s)"
proof (induction ss arbitrary: v)
  case Nil
  then show ?case by simp
next
  case (Cons s ss)
  show ?case
  proof (cases "s = goal_pos env")
    case True
    with Cons.prems have "tpi_eval_sweep env gamma policy snap ss v = Inr v'" by simp
    from Cons.IH [OF this] True show ?thesis by simp
  next
    case False
    with Cons.prems obtain a next_s reward d vn where
      a: "policy s = Some a" and st: "step env s a = Inr (next_s, reward, d)" and
      vn: "snap next_s = Some vn" and
      rest: "tpi_eval_sweep env gamma policy snap ss (v(s \<mapsto> reward + gamma * vn)) = Inr v'"
      by (auto simp: dict_get_def split: sum.splits option.splits)
    have bq: "policy_backup env gamma policy snap s (Some (reward + gamma * vn))"
      by (simp add: policy_backup_def q_value_def a st vn)
    from Cons.IH [OF rest]
    have ih1: "\<forall>t \<in> set ss. t \<noteq> goal_pos env \<longrightarrow> policy_backup env gamma policy snap t (v' t)"
      and ih2: "\<forall>t. (t \<in> set ss \<longrightarrow> t = goal_pos env) \<longrightarrow>
                 v' t = (v(s \<mapsto> reward + gamma * vn)) t" by blast+
    have "policy_backup env gamma policy snap s (v' s)"
    proof (cases "s \<in> set ss")
      case True
      with ih1 False show ?thesis by blast
    next
      case False
      with ih2 have "v' s = Some (reward + gamma * vn)" by (metis fun_upd_same)
      with bq show ?thesis by simp
    qed
    moreover have "v' t = v t" if "t \<in> set (s # ss) \<longrightarrow> t = goal_pos env" for t
    proof -
      from that False have "t \<noteq> s" and "t \<in> set ss \<longrightarrow> t = goal_pos env" by auto
      with ih2 show ?thesis by (metis fun_upd_other)
    qed
    ultimately show ?thesis using ih1 by (metis set_ConsD)
  qed
qed

lemma tpi_sweep_step_error: "(tpi_sweep_step env gamma policy ^^ j) (Inl e) = Inl e"
  by (induction j) (simp_all add: tpi_sweep_step_def)

lemma tpi_eval_iterate:
  "tpi_eval env gamma policy j v = (tpi_sweep_step env gamma policy ^^ j) (Inr v)"
proof (induction j arbitrary: v)
  case 0
  then show ?case by simp
next
  case (Suc j)
  have "(tpi_sweep_step env gamma policy ^^ Suc j) (Inr v) =
        (tpi_sweep_step env gamma policy ^^ j) (tpi_sweep_step env gamma policy (Inr v))"
    by (simp add: funpow_swap1)
  also have "\<dots> = tpi_eval env gamma policy (Suc j) v"
  proof (cases "tpi_eval_sweep env gamma policy v (states env) v")
    case (Inl e)
    then show ?thesis by (simp add: tpi_sweep_step_def tpi_sweep_step_error)
  next
    case (Inr v')
    then show ?thesis by (simp add: tpi_sweep_step_def [of _ _ _ "Inr v"] Suc.IH)
  qed
  finally show ?case by simp
qed

lemma tpi_loop_history:
  assumes "tpi_loop env gamma j v pol history = Some r"
  shows "\<forall>v' pol' history'. r = Inr (v', pol', history') \<longrightarrow>
           (\<exists>ext. history' = history @ ext \<and> last (v # ext) = v' \<and>
              successively (\<lambda>x y. \<exists>p. tpi_eval env gamma p j x = Inr y) (v # ext))"
  using assms
proof (induction env gamma j v pol history r rule: tpi_loop.raw_induct [rotated 1, consumes 1, case_names unfold])
  case (unfold tpi_loop env gamma j v pol history r)
  show ?case
  proof (intro allI impI)
    fix v' pol' history'
    assume r: "r = Inr (v', pol', history')"
    let ?R = "\<lambda>x y. \<exists>p. tpi_eval env gamma p j x = Inr y"
    from unfold(2) r obtain v1 where ev: "tpi_eval env gamma pol j v = Inr v1"
      by (auto split: sum.splits)
    from unfold(2) r ev obtain pol1 stable where
      imp: "pi_improve env gamma v1 (states env) (pol, True) = Inr (pol1, stable)"
      by (auto split: sum.splits)
    from ev have step: "?R v v1" by blast
    show "\<exists>ext. history' = history @ ext \<and> last (v # ext) = v' \<and> successively ?R (v # ext)"
    proof (cases stable)
      case True
      with unfold(2) r ev imp have "history' = history @ [v1]" and "v' = v1" by auto
      with step show ?thesis by (intro exI [of _ "[v1]"]) simp
    next
      case False
      with unfold(2) ev imp have "tpi_loop env gamma j v1 pol1 (history @ [v1]) = Some r" by simp
      from unfold(1) [OF this] r obtain ext where
        h: "history' = (history @ [v1]) @ ext" and l: "last (v1 # ext) = v'" and
        c: "successively ?R (v1 # ext)" by blast
      from h l c step show ?thesis by (intro exI [of _ "v1 # ext"]) simp
    qed
  qed
qed

text \<open>
  C5. The evaluation phase of \<^verbatim>\<open>truncated_policy_iteration\<close> is the sweep applied
  exactly \<open>j_truncate\<close> times, whatever the values are (there is no convergence test);
  a sweep started on the table \<open>v\<close> leaves at every non-goal state \<open>s\<close> the value
  \<open>reward(s, \<pi>[s]) + \<gamma> \<cdot> v[next(s, \<pi>[s])]\<close> read from \<open>v\<close> as it stood before the sweep;
  and in a run that returns, each table of the history is the result of such an
  evaluation phase on the table before it.
\<close>

theorem truncated_evaluation_synchronous:
  "tpi_eval env gamma policy j_truncate v =
     (tpi_sweep_step env gamma policy ^^ j_truncate) (Inr v) \<and>
   (tpi_eval_sweep env gamma policy v (states env) v = Inr v' \<longrightarrow>
      (\<forall>s \<in> set (states env). s \<noteq> goal_pos env \<longrightarrow> policy_backup env gamma policy v s (v' s))) \<and>
   (truncated_policy_iteration env gamma j_truncate g = Some (Inr (vf, policyf, history)) \<longrightarrow>
      successively (\<lambda>x y. \<exists>p. tpi_eval env gamma p j_truncate x = Inr y) history \<and>
      last history = vf)"
proof (intro conjI impI)
  show "tpi_eval env gamma policy j_truncate v =
     (tpi_sweep_step env gamma policy ^^ j_truncate) (Inr v)"
    by (rule tpi_eval_iterate)
next
  assume "tpi_eval_sweep env gamma policy v (states env) v = Inr v'"
  from tpi_eval_sweep_result [OF this]
  show "\<forall>s \<in> set (states env). s \<noteq> goal_pos env \<longrightarrow> policy_backup env gamma policy v s (v' s)"
    by blast
next
  assume run: "truncated_policy_iteration env gamma j_truncate g = Some (Inr (vf, policyf, history))"
  let ?v0 = "const_table (states env) (0::real)"
  from run obtain p0 where
    "tpi_loop env gamma j_truncate ?v0 p0 [?v0] = Some (Inr (vf, policyf, history))"
    by (auto simp: truncated_policy_iteration_def Let_def split: sum.splits)
  from tpi_loop_history [OF this] obtain ext where
    h: "history = [?v0] @ ext" and l: "last (?v0 # ext) = vf" and
    c: "successively (\<lambda>x y. \<exists>p. tpi_eval env gamma p j_truncate x = Inr y) (?v0 # ext)"
    by blast
  from h c show "successively (\<lambda>x y. \<exists>p. tpi_eval env gamma p j_truncate x = Inr y) history"
    by simp
  from h l show "last history = vf" by simp
qed

theorem truncated_evaluation_synchronous_witness:
  "tpi_eval_sweep corridor_env (9/10) [(0, 0) \<mapsto> ''W'', (0, 1) \<mapsto> ''W'']
     [(0, 0) \<mapsto> 0, (0, 1) \<mapsto> 0, (0, 2) \<mapsto> 0] (states corridor_env)
     [(0, 0) \<mapsto> 0, (0, 1) \<mapsto> 0, (0, 2) \<mapsto> 0] =
     Inr [(0, 2) \<mapsto> 0, (0, 0) \<mapsto> - 1, (0, 1) \<mapsto> - 1] \<and>
   policy_backup corridor_env (9/10) [(0, 0) \<mapsto> ''W'', (0, 1) \<mapsto> ''W'']
     [(0, 0) \<mapsto> 0, (0, 1) \<mapsto> 0, (0, 2) \<mapsto> 0] (0, 1) (Some (- 1)) \<and>
   truncated_policy_iteration corridor_env (9/10) 2 rng0 =
     Some (Inr ([(0, 2) \<mapsto> 0, (0, 0) \<mapsto> - 1, (0, 1) \<mapsto> 0],
                [(0, 2) \<mapsto> [], (0, 0) \<mapsto> ''E'', (0, 1) \<mapsto> ''E''],
                [[(0, 0) \<mapsto> 0, (0, 1) \<mapsto> 0, (0, 2) \<mapsto> 0],
                 [(0, 2) \<mapsto> 0, (0, 0) \<mapsto> - (19 / 10), (0, 1) \<mapsto> - (19 / 10)],
                 [(0, 2) \<mapsto> 0, (0, 0) \<mapsto> - (3439 / 1000), (0, 1) \<mapsto> 0],
                 [(0, 2) \<mapsto> 0, (0, 0) \<mapsto> - 1, (0, 1) \<mapsto> 0]])) \<and>
   successively (\<lambda>x y. \<exists>p. tpi_eval corridor_env (9/10) p 2 x = Inr y)
     [[(0, 0) \<mapsto> 0, (0, 1) \<mapsto> 0, (0, 2) \<mapsto> 0],
      [(0, 2) \<mapsto> 0, (0, 0) \<mapsto> - (19 / 10), (0, 1) \<mapsto> - (19 / 10)],
      [(0, 2) \<mapsto> 0, (0, 0) \<mapsto> - (3439 / 1000), (0, 1) \<mapsto> 0],
      [(0, 2) \<mapsto> 0, (0, 0) \<mapsto> - 1, (0, 1) \<mapsto> 0]]"
proof -
  let ?v0 = "[(0, 0) \<mapsto> 0, (0, 1) \<mapsto> 0, (0, 2) \<mapsto> (0::real)] :: vtable"
  let ?v1 = "[(0, 2) \<mapsto> 0, (0, 0) \<mapsto> - 1, (0, 1) \<mapsto> - (1::real)] :: vtable"
  let ?vf = "[(0, 2) \<mapsto> 0, (0, 0) \<mapsto> - 1, (0, 1) \<mapsto> (0::real)] :: vtable"
  let ?pw = "[(0, 0) \<mapsto> ''W'', (0, 1) \<mapsto> ''W''] :: policy"
  let ?pf = "[(0, 2) \<mapsto> [], (0, 0) \<mapsto> ''E'', (0, 1) \<mapsto> ''E''] :: policy"
  let ?h = "[?v0, [(0, 2) \<mapsto> 0, (0, 0) \<mapsto> - (19 / 10), (0, 1) \<mapsto> - (19 / 10)],
             [(0, 2) \<mapsto> 0, (0, 0) \<mapsto> - (3439 / 1000), (0, 1) \<mapsto> 0], ?vf] :: vtable list"
  have sweep: "tpi_eval_sweep corridor_env (9/10) ?pw ?v0 (states corridor_env) ?v0 = Inr ?v1"
    by (simp add: corridor_simps)
  have run: "truncated_policy_iteration corridor_env (9/10) 2 rng0 = Some (Inr (?vf, ?pf, ?h))"
    apply (simp add: truncated_policy_iteration_def corridor_simps random_choice_def rng0_def)
    apply (subst tpi_loop.simps)
    apply (simp add: corridor_simps eval_nat_numeral)
    apply (subst tpi_loop.simps)
    apply (simp add: corridor_simps eval_nat_numeral)
    apply (subst tpi_loop.simps)
    apply (simp add: corridor_simps eval_nat_numeral)
    done
  have mid: "(0, 1) \<in> set (states corridor_env) \<and> (0, 1) \<noteq> goal_pos corridor_env"
    by (simp add: corridor_simps)
  from truncated_evaluation_synchronous [of corridor_env "9/10" ?pw 2 ?v0 ?v1 rng0 ?vf ?pf ?h]
    sweep run mid
  have "policy_backup corridor_env (9/10) ?pw ?v0 (0, 1) (?v1 (0, 1)) \<and>
        successively (\<lambda>x y. \<exists>p. tpi_eval corridor_env (9/10) p 2 x = Inr y) ?h"
    by blast
  with sweep run show ?thesis by simp
qed


section \<open>Policy iteration\<close>


lemma pi_eval_sweep_append:
  "pi_eval_sweep env gamma policy (xs @ ys) st =
     (case pi_eval_sweep env gamma policy xs st of
        Inl e \<Rightarrow> Inl e
      | Inr st' \<Rightarrow> pi_eval_sweep env gamma policy ys st')"
proof (induction xs arbitrary: st)
  case Nil
  then show ?case by simp
next
  case (Cons x xs)
  obtain v d where st: "st = (v, d)" by (cases st)
  show ?case unfolding st using Cons.IH
    by (simp split: sum.splits prod.splits)
qed

lemma pi_eval_sweep_unchanged:
  "pi_eval_sweep env gamma policy ss (v, d) = Inr (v', d') \<Longrightarrow> s \<notin> set ss \<Longrightarrow> v' s = v s"
proof (induction ss arbitrary: v d)
  case Nil
  then show ?case by simp
next
  case (Cons x ss)
  show ?case
  proof (cases "x = goal_pos env")
    case True
    with Cons show ?thesis by simp
  next
    case False
    with Cons.prems obtain q dq where
      rest: "pi_eval_sweep env gamma policy ss (v(x \<mapsto> q), dq) = Inr (v', d')"
      by (auto split: sum.splits)
    from Cons.IH [OF rest] Cons.prems(2) have "v' s = (v(x \<mapsto> q)) s" by simp
    with Cons.prems(2) show ?thesis by simp
  qed
qed

lemma pi_eval_sweep_head:
  assumes "pi_eval_sweep env gamma policy (s # ss) (v, d) = Inr (v', d')" "s \<noteq> goal_pos env"
  shows "\<exists>v_old q. v s = Some v_old \<and> policy_backup env gamma policy v s (Some q) \<and>
           pi_eval_sweep env gamma policy ss (v(s \<mapsto> q), max d \<bar>v_old - q\<bar>) = Inr (v', d')"
proof -
  from assms obtain v_old a next_s reward dn vn where
    "v s = Some v_old" "policy s = Some a" "step env s a = Inr (next_s, reward, dn)"
    "v next_s = Some vn"
    "pi_eval_sweep env gamma policy ss
       (v(s \<mapsto> reward + gamma * vn), max d \<bar>v_old - (reward + gamma * vn)\<bar>) = Inr (v', d')"
    by (auto simp: dict_get_def split: sum.splits option.splits)
  then show ?thesis
    by (intro exI [of _ v_old] exI [of _ "reward + gamma * vn"])
       (simp add: policy_backup_def q_value_def)
qed

lemma pi_eval_sweep_in_place:
  assumes run: "pi_eval_sweep env gamma policy (pre @ s # post) (v, d) = Inr (v', d')"
    and s: "s \<noteq> goal_pos env" "s \<notin> set post"
  shows "\<exists>u du. pi_eval_sweep env gamma policy pre (v, d) = Inr (u, du) \<and>
           policy_backup env gamma policy u s (v' s)"
proof -
  from run obtain u du where pre: "pi_eval_sweep env gamma policy pre (v, d) = Inr (u, du)"
    and rest: "pi_eval_sweep env gamma policy (s # post) (u, du) = Inr (v', d')"
    by (auto simp: pi_eval_sweep_append split: sum.splits)
  from pi_eval_sweep_head [OF rest s(1)] obtain v_old q where
    bq: "policy_backup env gamma policy u s (Some q)" and
    post: "pi_eval_sweep env gamma policy post (u(s \<mapsto> q), max du \<bar>v_old - q\<bar>) = Inr (v', d')"
    by blast
  from pi_eval_sweep_unchanged [OF post s(2)] have "v' s = Some q" by simp
  with pre bq show ?thesis by simp
qed

lemma Max_insert_max:
  fixes d :: real
  shows "finite A \<Longrightarrow> Max (insert (max d x) A) = Max (insert d (insert x A))"
  by (cases "A = {}") (simp_all add: max.assoc)

lemma pi_eval_sweep_delta:
  "distinct ss \<Longrightarrow> pi_eval_sweep env gamma policy ss (v, d) = Inr (v', d') \<Longrightarrow>
     d' = Max (insert d ((\<lambda>s. \<bar>the (v s) - the (v' s)\<bar>) ` {s \<in> set ss. s \<noteq> goal_pos env}))"
proof (induction ss arbitrary: v d)
  case Nil
  then show ?case by simp
next
  case (Cons s ss)
  let ?S = "{t \<in> set ss. t \<noteq> goal_pos env}"
  have fin: "finite ?S" by simp
  show ?case
  proof (cases "s = goal_pos env")
    case True
    with Cons.prems have "pi_eval_sweep env gamma policy ss (v, d) = Inr (v', d')" by simp
    moreover from True have "{t \<in> set (s # ss). t \<noteq> goal_pos env} = ?S" by auto
    ultimately show ?thesis using Cons.IH Cons.prems(1) by simp
  next
    case False
    from pi_eval_sweep_head [OF Cons.prems(2) False] obtain v_old q where
      vs: "v s = Some v_old" and
      rest: "pi_eval_sweep env gamma policy ss (v(s \<mapsto> q), max d \<bar>v_old - q\<bar>) = Inr (v', d')"
      by blast
    from Cons.prems(1) have sn: "s \<notin> set ss" and dist: "distinct ss" by simp_all
    from pi_eval_sweep_unchanged [OF rest sn] have v's: "v' s = Some q" by simp
    have same: "(\<lambda>t. \<bar>the ((v(s \<mapsto> q)) t) - the (v' t)\<bar>) ` ?S = (\<lambda>t. \<bar>the (v t) - the (v' t)\<bar>) ` ?S"
      using sn by (intro image_cong) auto
    from Cons.IH [OF dist rest] same
    have "d' = Max (insert (max d \<bar>v_old - q\<bar>) ((\<lambda>t. \<bar>the (v t) - the (v' t)\<bar>) ` ?S))" by simp
    also have "\<dots> = Max (insert d (insert \<bar>v_old - q\<bar> ((\<lambda>t. \<bar>the (v t) - the (v' t)\<bar>) ` ?S)))"
      using fin by (intro Max_insert_max) simp
    also have "insert \<bar>v_old - q\<bar> ((\<lambda>t. \<bar>the (v t) - the (v' t)\<bar>) ` ?S) =
        (\<lambda>t. \<bar>the (v t) - the (v' t)\<bar>) ` {t \<in> set (s # ss). t \<noteq> goal_pos env}"
    proof -
      have "{t \<in> set (s # ss). t \<noteq> goal_pos env} = insert s ?S" using False by auto
      then show ?thesis using vs v's by simp
    qed
    finally show ?thesis .
  qed
qed

lemma pi_eval_stops:
  assumes "pi_eval env gamma theta policy v = Some r"
  shows "\<forall>v'. r = Inr v' \<longrightarrow>
           (\<exists>u d. pi_eval_sweep env gamma policy (states env) (u, 0) = Inr (v', d) \<and> d < theta)"
  using assms
proof (induction env gamma theta policy v r rule: pi_eval.raw_induct [rotated 1, consumes 1, case_names unfold])
  case (unfold pi_eval env gamma theta policy v r)
  show ?case
  proof (intro allI impI)
    fix v' assume r: "r = Inr v'"
    from unfold(2) r obtain v1 d where
      sw: "pi_eval_sweep env gamma policy (states env) (v, 0) = Inr (v1, d)"
      by (auto split: sum.splits)
    show "\<exists>u d. pi_eval_sweep env gamma policy (states env) (u, 0) = Inr (v', d) \<and> d < theta"
    proof (cases "d < theta")
      case True
      with unfold(2) sw r show ?thesis by auto
    next
      case False
      with unfold(2) sw have "pi_eval env gamma theta policy v1 = Some r" by simp
      from unfold(1) [OF this] r show ?thesis by blast
    qed
  qed
qed


lemma greedy_choice:
  assumes av: "action_values env gamma v s (action_keys env) [] = Inr av"
    and best: "dict_argmax av = Inr best"
  shows "greedy_at env gamma v s (Some best)"
proof -
  from action_values_result [OF av]
  have defined: "\<forall>a \<in> set (action_keys env). q_value env gamma v s a \<noteq> None"
    and lookup: "\<And>a. a \<in> set (action_keys env) \<Longrightarrow> map_of av a = q_value env gamma v s a"
    and keys: "fst ` set av = set (action_keys env)"
    and dist: "distinct (map fst av)"
    by auto
  from dict_argmax_result [OF best] obtain q' where
    mem: "(best, q') \<in> set av" and mx: "q' = Max (snd ` set av)" by blast
  from mem keys have bk: "best \<in> set (action_keys env)" by force
  from mem dist have "map_of av best = Some q'" by simp
  with lookup [OF bk] have qb: "the (q_value env gamma v s best) = q'" by (metis option.sel)
  have "the (q_value env gamma v s b) \<le> q'" if b: "b \<in> set (action_keys env)" for b
  proof -
    from b keys obtain y where bY: "(b, y) \<in> set av" by force
    with dist have "map_of av b = Some y" by simp
    with lookup [OF b] have "the (q_value env gamma v s b) = y" by (metis option.sel)
    moreover from bY have "y \<le> Max (snd ` set av)" by (intro Max_ge) force+
    ultimately show ?thesis using mx by simp
  qed
  with defined bk qb show ?thesis by (auto simp: greedy_at_def)
qed

lemma pi_improve_result:
  "pi_improve env gamma v ss (policy, stb) = Inr (policy', stb') \<Longrightarrow>
     (\<forall>s \<in> set ss. s \<noteq> goal_pos env \<longrightarrow>
        (\<exists>av b. action_values env gamma v s (action_keys env) [] = Inr av \<and>
                dict_argmax av = Inr b \<and> policy' s = Some b)) \<and>
     (\<forall>s. (s \<in> set ss \<longrightarrow> s = goal_pos env) \<longrightarrow> policy' s = policy s) \<and>
     (stb' \<longleftrightarrow> stb \<and> policy' = policy)"
proof (induction ss arbitrary: policy stb)
  case Nil
  then show ?case by auto
next
  case (Cons s ss)
  show ?case
  proof (cases "s = goal_pos env")
    case True
    with Cons.prems have "pi_improve env gamma v ss (policy, stb) = Inr (policy', stb')"
      by simp
    from Cons.IH [OF this] True show ?thesis by simp
  next
    case False
    with Cons.prems obtain old av best where
      old: "policy s = Some old" and
      av: "action_values env gamma v s (action_keys env) [] = Inr av" and
      best: "dict_argmax av = Inr best" and
      rest: "pi_improve env gamma v ss
               (policy(s \<mapsto> best), if old \<noteq> best then False else stb) = Inr (policy', stb')"
      by (auto simp: dict_get_def split: sum.splits option.splits)
    let ?G = "\<lambda>t. \<exists>av b. action_values env gamma v t (action_keys env) [] = Inr av \<and>
                dict_argmax av = Inr b \<and> policy' t = Some b"
    from Cons.IH [OF rest]
    have ih1: "\<forall>t \<in> set ss. t \<noteq> goal_pos env \<longrightarrow> ?G t"
      and ih2: "\<forall>t. (t \<in> set ss \<longrightarrow> t = goal_pos env) \<longrightarrow> policy' t = (policy(s \<mapsto> best)) t"
      and ih3: "stb' \<longleftrightarrow> (if old \<noteq> best then False else stb) \<and> policy' = policy(s \<mapsto> best)"
      by blast+
    have ps: "policy' s = Some best"
    proof (cases "s \<in> set ss")
      case True
      with ih1 False av best show ?thesis by auto
    next
      case False
      with ih2 show ?thesis by (metis fun_upd_same)
    qed
    with av best have gs: "?G s" by blast
    have unch: "policy' t = policy t" if "t \<in> set (s # ss) \<longrightarrow> t = goal_pos env" for t
    proof -
      from that False have "t \<noteq> s" and "t \<in> set ss \<longrightarrow> t = goal_pos env" by auto
      with ih2 show ?thesis by (metis fun_upd_other)
    qed
    have st: "stb' \<longleftrightarrow> stb \<and> policy' = policy"
    proof (cases "old = best")
      case True
      with old have "policy(s \<mapsto> best) = policy" by (simp add: fun_upd_idem)
      with ih3 True show ?thesis by simp
    next
      case False
      with ps old have "policy' \<noteq> policy" by auto
      with ih3 False show ?thesis by simp
    qed
    from gs ih1 have "\<forall>t \<in> set (s # ss). t \<noteq> goal_pos env \<longrightarrow> ?G t" by simp
    with unch st show ?thesis by blast
  qed
qed

lemma pi_loop_result:
  assumes "pi_loop env gamma theta v pol history = Some r"
  shows "\<forall>v' pol' history'. r = Inr (v', pol', history') \<longrightarrow>
           pi_improve env gamma v' (states env) (pol', True) = Inr (pol', True) \<and>
           (\<exists>u. pi_eval env gamma theta pol' u = Some (Inr v'))"
  using assms
proof (induction env gamma theta v pol history r rule: pi_loop.raw_induct [rotated 1, consumes 1, case_names unfold])
  case (unfold pi_loop env gamma theta v pol history r)
  show ?case
  proof (intro allI impI)
    fix v' pol' history'
    assume r: "r = Inr (v', pol', history')"
    from unfold(2) obtain y where y: "pi_eval env gamma theta pol v = Some y" and
      body: "(case y of
         Inl e \<Rightarrow> Some (Inl e)
       | Inr v' \<Rightarrow>
           (case pi_improve env gamma v' (states env) (pol, True) of
              Inl e \<Rightarrow> Some (Inl e)
            | Inr (policy', policy_stable) \<Rightarrow>
                if policy_stable then Some (Inr (v', policy', history @ [v']))
                else pi_loop env gamma theta v' policy' (history @ [v']))) = Some r"
      by (auto simp: bind_eq_Some_conv)
    from body r obtain v1 where y1: "y = Inr v1" by (cases y) auto
    with y have ev: "pi_eval env gamma theta pol v = Some (Inr v1)" by simp
    from body r y1 obtain pol1 stb where
      imp: "pi_improve env gamma v1 (states env) (pol, True) = Inr (pol1, stb)"
      by (auto split: sum.splits)
    note unfold2 = body [unfolded y1, simplified]
    show "pi_improve env gamma v' (states env) (pol', True) = Inr (pol', True) \<and>
           (\<exists>u. pi_eval env gamma theta pol' u = Some (Inr v'))"
    proof (cases stb)
      case True
      with unfold2 r imp have eq: "v' = v1" "pol' = pol1" by auto
      from pi_improve_result [OF imp] True have "pol1 = pol" by simp
      with imp True eq ev show ?thesis by auto
    next
      case False
      with unfold2 imp have "pi_loop env gamma theta v1 pol1 (history @ [v1]) = Some r" by simp
      from unfold(1) [OF this] r show ?thesis by blast
    qed
  qed
qed

text \<open>
  C6. In \<^verbatim>\<open>policy_iteration\<close> the evaluation sweep works in place: the value left at a
  non-goal state \<open>s\<close> is \<open>reward(s, \<pi>[s]) + \<gamma> \<cdot> u[next(s, \<pi>[s])]\<close> where \<open>u\<close> is the table
  as the states before \<open>s\<close> in the same sweep have left it. The sweep is repeated until its
  \<open>delta\<close>, the largest absolute change of the sweep, is below \<open>theta\<close>. An improvement
  pass reports the policy stable exactly when it has changed no state's action, the outer
  loop returns exactly then, and the returned policy is greedy for the returned value
  table at every non-goal state.
\<close>

theorem policy_iteration_in_place_until_stable:
  "(pi_eval_sweep env gamma policy (pre @ s # post) (v, d) = Inr (v', d') \<and>
      s \<noteq> goal_pos env \<and> s \<notin> set post \<longrightarrow>
      (\<exists>u du. pi_eval_sweep env gamma policy pre (v, d) = Inr (u, du) \<and>
         policy_backup env gamma policy u s (v' s))) \<and>
   (pi_eval_sweep env gamma policy (states env) (v, 0) = Inr (v1, d1) \<longrightarrow>
      pi_eval env gamma theta policy v =
        (if d1 < theta then Some (Inr v1) else pi_eval env gamma theta policy v1) \<and>
      (distinct (states env) \<longrightarrow> d1 = max_change env (states env) v v1)) \<and>
   (pi_eval env gamma theta policy v = Some (Inr v2) \<longrightarrow>
      (\<exists>u du. pi_eval_sweep env gamma policy (states env) (u, 0) = Inr (v2, du) \<and> du < theta)) \<and>
   (pi_improve env gamma v2 (states env) (policy, True) = Inr (policy2, stb) \<longrightarrow>
      (stb \<longleftrightarrow> policy2 = policy) \<and>
      (\<forall>t \<in> set (states env). t \<noteq> goal_pos env \<longrightarrow> greedy_at env gamma v2 t (policy2 t)) \<and>
      (pi_eval env gamma theta policy v = Some (Inr v2) \<longrightarrow>
         pi_loop env gamma theta v policy history =
           (if stb then Some (Inr (v2, policy2, history @ [v2]))
            else pi_loop env gamma theta v2 policy2 (history @ [v2])))) \<and>
   (policy_iteration env gamma theta g = Some (Inr (vf, policyf, historyf)) \<longrightarrow>
      pi_improve env gamma vf (states env) (policyf, True) = Inr (policyf, True) \<and>
      (\<exists>u. pi_eval env gamma theta policyf u = Some (Inr vf)) \<and>
      (\<forall>t \<in> set (states env). t \<noteq> goal_pos env \<longrightarrow> greedy_at env gamma vf t (policyf t)))"
proof -
  have inplace: "\<exists>u du. pi_eval_sweep env gamma policy pre (v, d) = Inr (u, du) \<and>
         policy_backup env gamma policy u s (v' s)"
    if "pi_eval_sweep env gamma policy (pre @ s # post) (v, d) = Inr (v', d') \<and>
      s \<noteq> goal_pos env \<and> s \<notin> set post"
    using that pi_eval_sweep_in_place by blast
  have until: "pi_eval env gamma theta policy v =
        (if d1 < theta then Some (Inr v1) else pi_eval env gamma theta policy v1) \<and>
      (distinct (states env) \<longrightarrow> d1 = max_change env (states env) v v1)"
    if sw: "pi_eval_sweep env gamma policy (states env) (v, 0) = Inr (v1, d1)"
  proof
    show "pi_eval env gamma theta policy v =
        (if d1 < theta then Some (Inr v1) else pi_eval env gamma theta policy v1)"
      by (subst pi_eval.simps) (simp add: sw)
    show "distinct (states env) \<longrightarrow> d1 = max_change env (states env) v v1"
      using pi_eval_sweep_delta [OF _ sw] by (simp add: max_change_def)
  qed
  have stops: "\<exists>u du. pi_eval_sweep env gamma policy (states env) (u, 0) = Inr (v2, du) \<and> du < theta"
    if "pi_eval env gamma theta policy v = Some (Inr v2)"
    using pi_eval_stops [OF that] by blast
  have greedy: "\<forall>t \<in> set (states env). t \<noteq> goal_pos env \<longrightarrow> greedy_at env gamma w t (p' t)"
    if "pi_improve env gamma w (states env) (p, True) = Inr (p', b)" for w p p' b
    using pi_improve_result [OF that] greedy_choice by metis
  have improve: "(stb \<longleftrightarrow> policy2 = policy) \<and>
      (\<forall>t \<in> set (states env). t \<noteq> goal_pos env \<longrightarrow> greedy_at env gamma v2 t (policy2 t)) \<and>
      (pi_eval env gamma theta policy v = Some (Inr v2) \<longrightarrow>
         pi_loop env gamma theta v policy history =
           (if stb then Some (Inr (v2, policy2, history @ [v2]))
            else pi_loop env gamma theta v2 policy2 (history @ [v2])))"
    if imp: "pi_improve env gamma v2 (states env) (policy, True) = Inr (policy2, stb)"
  proof (intro conjI impI)
    from pi_improve_result [OF imp] show "stb \<longleftrightarrow> policy2 = policy" by simp
    from greedy [OF imp]
    show "\<forall>t \<in> set (states env). t \<noteq> goal_pos env \<longrightarrow> greedy_at env gamma v2 t (policy2 t)" .
    assume "pi_eval env gamma theta policy v = Some (Inr v2)"
    then show "pi_loop env gamma theta v policy history =
           (if stb then Some (Inr (v2, policy2, history @ [v2]))
            else pi_loop env gamma theta v2 policy2 (history @ [v2]))"
      by (subst pi_loop.simps) (simp add: imp)
  qed
  have result: "pi_improve env gamma vf (states env) (policyf, True) = Inr (policyf, True) \<and>
      (\<exists>u. pi_eval env gamma theta policyf u = Some (Inr vf)) \<and>
      (\<forall>t \<in> set (states env). t \<noteq> goal_pos env \<longrightarrow> greedy_at env gamma vf t (policyf t))"
    if run: "policy_iteration env gamma theta g = Some (Inr (vf, policyf, historyf))"
  proof -
    from run obtain p0 v0 h0 where
      "pi_loop env gamma theta v0 p0 h0 = Some (Inr (vf, policyf, historyf))"
      by (auto simp: policy_iteration_def Let_def split: sum.splits)
    from pi_loop_result [OF this]
    have fixd: "pi_improve env gamma vf (states env) (policyf, True) = Inr (policyf, True)"
      and ev: "\<exists>u. pi_eval env gamma theta policyf u = Some (Inr vf)" by blast+
    from fixd ev greedy [OF fixd] show ?thesis by blast
  qed
  from inplace until stops improve result show ?thesis by blast
qed

theorem policy_iteration_in_place_until_stable_witness:
  "pi_eval_sweep corridor_env (1/2) [(0, 0) \<mapsto> ''W'', (0, 1) \<mapsto> ''W'']
     ([(0, 0)] @ (0, 1) # [(0, 2)]) ([(0, 0) \<mapsto> 0, (0, 1) \<mapsto> 0, (0, 2) \<mapsto> 0], 0) =
     Inr ([(0, 2) \<mapsto> 0, (0, 0) \<mapsto> - 1, (0, 1) \<mapsto> - (3 / 2)], 3 / 2) \<and>
   (\<exists>u du. pi_eval_sweep corridor_env (1/2) [(0, 0) \<mapsto> ''W'', (0, 1) \<mapsto> ''W''] [(0, 0)]
              ([(0, 0) \<mapsto> 0, (0, 1) \<mapsto> 0, (0, 2) \<mapsto> 0], 0) = Inr (u, du) \<and>
      policy_backup corridor_env (1/2) [(0, 0) \<mapsto> ''W'', (0, 1) \<mapsto> ''W''] u (0, 1)
        (Some (- (3 / 2)))) \<and>
   3 / 2 = max_change corridor_env (states corridor_env) [(0, 0) \<mapsto> 0, (0, 1) \<mapsto> 0, (0, 2) \<mapsto> 0]
             [(0, 2) \<mapsto> 0, (0, 0) \<mapsto> - 1, (0, 1) \<mapsto> - (3 / 2)] \<and>
   policy_iteration corridor_env (1/2) (1/4) rng0 =
     Some (Inr ([(0, 2) \<mapsto> 0, (0, 0) \<mapsto> - 1, (0, 1) \<mapsto> 0],
                [(0, 2) \<mapsto> [], (0, 0) \<mapsto> ''E'', (0, 1) \<mapsto> ''E''],
                [[(0, 0) \<mapsto> 0, (0, 1) \<mapsto> 0, (0, 2) \<mapsto> 0],
                 [(0, 2) \<mapsto> 0, (0, 0) \<mapsto> - (15 / 8), (0, 1) \<mapsto> - (31 / 16)],
                 [(0, 2) \<mapsto> 0, (0, 0) \<mapsto> - (63 / 32), (0, 1) \<mapsto> 0],
                 [(0, 2) \<mapsto> 0, (0, 0) \<mapsto> - 1, (0, 1) \<mapsto> 0]])) \<and>
   pi_improve corridor_env (1/2) [(0, 2) \<mapsto> 0, (0, 0) \<mapsto> - 1, (0, 1) \<mapsto> 0]
     (states corridor_env) ([(0, 2) \<mapsto> [], (0, 0) \<mapsto> ''E'', (0, 1) \<mapsto> ''E''], True) =
     Inr ([(0, 2) \<mapsto> [], (0, 0) \<mapsto> ''E'', (0, 1) \<mapsto> ''E''], True) \<and>
   greedy_at corridor_env (1/2) [(0, 2) \<mapsto> 0, (0, 0) \<mapsto> - 1, (0, 1) \<mapsto> 0] (0, 0) (Some ''E'')"
proof -
  let ?v0 = "[(0, 0) \<mapsto> 0, (0, 1) \<mapsto> 0, (0, 2) \<mapsto> (0::real)] :: vtable"
  let ?vA = "[(0, 2) \<mapsto> 0, (0, 0) \<mapsto> - 1, (0, 1) \<mapsto> - (3 / 2 :: real)] :: vtable"
  let ?vf = "[(0, 2) \<mapsto> 0, (0, 0) \<mapsto> - 1, (0, 1) \<mapsto> (0::real)] :: vtable"
  let ?pw = "[(0, 0) \<mapsto> ''W'', (0, 1) \<mapsto> ''W''] :: policy"
  let ?pf = "[(0, 2) \<mapsto> [], (0, 0) \<mapsto> ''E'', (0, 1) \<mapsto> ''E''] :: policy"
  let ?h = "[?v0, [(0, 2) \<mapsto> 0, (0, 0) \<mapsto> - (15 / 8), (0, 1) \<mapsto> - (31 / 16)],
             [(0, 2) \<mapsto> 0, (0, 0) \<mapsto> - (63 / 32), (0, 1) \<mapsto> 0], ?vf] :: vtable list"
  have sweep: "pi_eval_sweep corridor_env (1/2) ?pw ([(0, 0)] @ (0, 1) # [(0, 2)]) (?v0, 0) =
      Inr (?vA, 3 / 2)"
    by (simp add: corridor_simps)
  have sweep': "pi_eval_sweep corridor_env (1/2) ?pw (states corridor_env) (?v0, 0) =
      Inr (?vA, 3 / 2)"
    by (simp add: corridor_simps)
  have side: "(0, 1) \<noteq> goal_pos corridor_env \<and> ((0, 1)::pos) \<notin> set [(0, 2)] \<and>
      distinct (states corridor_env) \<and> (0, 0) \<in> set (states corridor_env) \<and>
      (0, 0) \<noteq> goal_pos corridor_env"
    by (simp add: corridor_simps)
  have run: "policy_iteration corridor_env (1/2) (1/4) rng0 = Some (Inr (?vf, ?pf, ?h))"
    apply (simp add: policy_iteration_def corridor_simps random_choice_def rng0_def)
    apply (subst pi_loop.simps)
    apply (subst pi_eval.simps, simp add: corridor_simps)
    apply (subst pi_eval.simps, simp add: corridor_simps)
    apply (subst pi_eval.simps, simp add: corridor_simps)
    apply (subst pi_eval.simps, simp add: corridor_simps)
    apply (subst pi_loop.simps)
    apply (subst pi_eval.simps, simp add: corridor_simps)
    apply (subst pi_eval.simps, simp add: corridor_simps)
    apply (subst pi_loop.simps)
    apply (subst pi_eval.simps, simp add: corridor_simps)
    apply (subst pi_eval.simps, simp add: corridor_simps)
    done
  note inst = policy_iteration_in_place_until_stable
    [where env = corridor_env and gamma = "1/2" and theta = "1/4" and policy = ?pw
       and pre = "[(0, 0)]" and s = "(0, 1)" and post = "[(0, 2)]" and v = ?v0 and d = 0
       and v' = ?vA and d' = "3/2" and ?v1.0 = ?vA and ?d1.0 = "3/2"
       and g = rng0 and vf = ?vf and policyf = ?pf and historyf = ?h]
  from inst sweep side
  have a: "\<exists>u du. pi_eval_sweep corridor_env (1/2) ?pw [(0, 0)] (?v0, 0) = Inr (u, du) \<and>
      policy_backup corridor_env (1/2) ?pw u (0, 1) (?vA (0, 1))" by blast
  from inst sweep' side
  have b: "3 / 2 = max_change corridor_env (states corridor_env) ?v0 ?vA" by blast
  from inst run side
  have c: "pi_improve corridor_env (1/2) ?vf (states corridor_env) (?pf, True) = Inr (?pf, True) \<and>
      greedy_at corridor_env (1/2) ?vf (0, 0) (?pf (0, 0))" by blast
  from a have a': "\<exists>u du. pi_eval_sweep corridor_env (1/2) ?pw [(0, 0)] (?v0, 0) = Inr (u, du) \<and>
      policy_backup corridor_env (1/2) ?pw u (0, 1) (Some (- (3 / 2)))" by simp
  from c have c': "pi_improve corridor_env (1/2) ?vf (states corridor_env) (?pf, True) = Inr (?pf, True) \<and>
      greedy_at corridor_env (1/2) ?vf (0, 0) (Some ''E'')" by simp
  from sweep a' b run c' show ?thesis by blast
qed

section \<open>Temporal-difference learners: what the calls do\<close>

declare n_step_loop.simps [simp del]

lemma q_row_effect:
  "q_row env w s = (r, w') \<Longrightarrow>
     r = row_of env (q_table w) s \<and>
     map_of (q_table w') = (map_of (q_table w))(s \<mapsto> r) \<and>
     rand w' = rand w \<and> trace w' = trace w"
  by (auto simp: q_row_def row_of_def map_of_dict_set fun_upd_idem split: option.splits)

lemma q_read_effect:
  "q_read env w s a = Inr (x, w') \<Longrightarrow>
     map_of (row_of env (q_table w) s) a = Some x \<and>
     map_of (q_table w') = (map_of (q_table w))(s \<mapsto> row_of env (q_table w) s) \<and>
     rand w' = rand w \<and> trace w' = trace w"
  by (auto simp: q_read_def split: prod.splits option.splits dest!: q_row_effect)

lemma q_write_effect:
  "map_of (q_table (q_write env w s a x)) =
     (map_of (q_table w))(s \<mapsto> dict_set a x (row_of env (q_table w) s)) \<and>
   rand (q_write env w s a x) = rand w \<and>
   trace (q_write env w s a x) = trace w @ [Wrote s a x]"
proof -
  obtain r w' where qr: "q_row env w s = (r, w')" by (cases "q_row env w s")
  from q_row_effect [OF qr] show ?thesis
    by (simp add: q_write_def qr map_of_dict_set)
qed

lemma random_choice_mem: "random_choice xs g = Inr (a, g') \<Longrightarrow> a \<in> set xs"
  by (auto simp: random_choice_def split: if_splits)

lemma choose_effect:
  assumes "choose_action_e_greedy env w s acts eps = Inr (a, w')"
  shows "trace w' = trace w @ [Chose s] \<and>
     (map_of (q_table w') = map_of (q_table w) \<or>
      map_of (q_table w') = (map_of (q_table w))(s \<mapsto> row_of env (q_table w) s)) \<and>
     (a \<in> set acts \<or> a \<in> fst ` set (row_of env (q_table w) s))"
proof -
  let ?w = "w\<lparr>trace := trace w @ [Chose s]\<rparr>"
  obtain u g where ru: "random_uniform (rand w) = (u, g)" by (cases "random_uniform (rand w)")
  show ?thesis
  proof (cases "u < eps")
    case True
    with assms ru obtain g' where "random_choice acts g = Inr (a, g')" "w' = ?w\<lparr>rand := g'\<rparr>"
      by (auto simp: choose_action_e_greedy_def Let_def split: sum.splits)
    then show ?thesis by (auto dest: random_choice_mem)
  next
    case False
    obtain qv w1 where qr: "q_row env ?w s = (qv, w1)" by (cases "q_row env ?w s")
    from False assms ru qr obtain max_q g' where
      rc: "random_choice (map fst (filter (\<lambda>(a, q). q = max_q) qv)) g = Inr (a, g')" and
      w': "w' = w1\<lparr>rand := g'\<rparr>"
      by (auto simp: choose_action_e_greedy_def Let_def split: sum.splits)
    from q_row_effect [OF qr] have qv: "qv = row_of env (q_table w) s"
      and m: "map_of (q_table w1) = (map_of (q_table w))(s \<mapsto> qv)"
      and t: "trace w1 = trace w @ [Chose s]" by simp_all
    from random_choice_mem [OF rc] have "a \<in> fst ` set qv" by auto
    with qv m t w' show ?thesis by simp
  qed
qed


lemma writes_append: "writes (xs @ ys) = writes xs @ writes ys"
  by (induction xs rule: writes.induct) simp_all

lemma stored_append: "stored (xs @ ys) = stored xs @ stored ys"
  by (induction xs rule: stored.induct) simp_all

lemma n_step_next_action_effect:
  assumes "n_step_next_action env eps ns d w = Inr (na, w')"
  shows "(d \<longrightarrow> na = None \<and> w' = w) \<and>
         (\<not> d \<longrightarrow> (\<exists>a. na = Some a \<and>
            choose_action_e_greedy env w ns (action_keys env) eps = Inr (a, w')))"
  using assms by (auto simp: n_step_next_action_def split: if_splits sum.splits)

lemma n_step_next_action_trace:
  assumes "n_step_next_action env eps ns d w = Inr (na, w')"
  shows "trace w' = trace w @ (if d then [] else [Chose ns])"
  using n_step_next_action_effect [OF assms] by (auto dest: choose_effect)

lemma n_step_update_inv:
  assumes "n_step_update env n alpha gamma ns na d traj w = Inr (traj', w')"
    and "n \<le> length traj"
  obtains s_tau a_tau r0 G w1 old w2 where
    "traj = (s_tau, a_tau, r0) # traj'"
    "d \<Longrightarrow> G = n_step_return gamma traj n \<and> w1 = w"
    "\<not> d \<Longrightarrow> \<exists>a' x. na = Some a' \<and> q_read env w ns a' = Inr (x, w1) \<and>
               G = n_step_return gamma traj n + gamma ^ n * x"
    "q_read env w1 s_tau a_tau = Inr (old, w2)"
    "w' = q_write env w2 s_tau a_tau (old + alpha * (G - old))"
proof -
  from assms obtain e rest where traj: "traj = e # rest"
    by (cases traj) (simp_all add: n_step_update_def)
  obtain s_tau a_tau r0 where e: "e = (s_tau, a_tau, r0)" by (cases e)
  note known = assms(2) traj e
  show ?thesis
  proof (cases d)
    case True
    obtain ow where rd: "q_read env w s_tau a_tau = Inr ow"
      using assms(1) known True by (cases "q_read env w s_tau a_tau") (simp_all add: n_step_update_def)
    obtain old w2 where ow: "ow = (old, w2)" by (cases ow)
    from assms(1) known True rd ow
    have fin: "traj' = rest \<and> w' = q_write env w2 s_tau a_tau
        (old + alpha * (n_step_return gamma traj n - old))"
      by (auto simp add: n_step_update_def)
    show ?thesis
    proof (rule that [of s_tau a_tau r0 "n_step_return gamma traj n" w old w2])
      show "traj = (s_tau, a_tau, r0) # traj'" using traj e fin by simp
      show "\<exists>a' x. na = Some a' \<and> q_read env w ns a' = Inr (x, w) \<and>
               n_step_return gamma traj n = n_step_return gamma traj n + gamma ^ n * x"
        if "\<not> d" using that True by simp
      show "q_read env w s_tau a_tau = Inr (old, w2)" using rd ow by simp
      show "w' = q_write env w2 s_tau a_tau (old + alpha * (n_step_return gamma traj n - old))"
        using fin by simp
    qed simp
  next
    case False
    obtain a' where na: "na = Some a'"
      using assms(1) known False by (cases na) (simp_all add: n_step_update_def)
    obtain xw where bt: "q_read env w ns a' = Inr xw"
      using assms(1) known False na by (cases "q_read env w ns a'") (simp_all add: n_step_update_def)
    obtain x w1 where xw: "xw = (x, w1)" by (cases xw)
    obtain ow where rd: "q_read env w1 s_tau a_tau = Inr ow"
      using assms(1) known False na bt xw
      by (cases "q_read env w1 s_tau a_tau") (simp_all add: n_step_update_def)
    obtain old w2 where ow: "ow = (old, w2)" by (cases ow)
    from assms(1) known False na bt xw rd ow
    have fin: "traj' = rest \<and> w' = q_write env w2 s_tau a_tau
        (old + alpha * (n_step_return gamma traj n + gamma ^ n * x - old))"
      by (auto simp add: n_step_update_def)
    show ?thesis
    proof (rule that [of s_tau a_tau r0 "n_step_return gamma traj n + gamma ^ n * x" w1 old w2])
      show "traj = (s_tau, a_tau, r0) # traj'" using traj e fin by simp
      show "n_step_return gamma traj n + gamma ^ n * x = n_step_return gamma traj n \<and> w1 = w"
        if d using that False by simp
      show "\<exists>a' xa. na = Some a' \<and> q_read env w ns a' = Inr (xa, w1) \<and>
               n_step_return gamma traj n + gamma ^ n * x =
               n_step_return gamma traj n + gamma ^ n * xa"
        using na bt xw by simp
      show "q_read env w1 s_tau a_tau = Inr (old, w2)" using rd ow by simp
      show "w' = q_write env w2 s_tau a_tau
          (old + alpha * (n_step_return gamma traj n + gamma ^ n * x - old))"
        using fin by simp
    qed
  qed
qed

lemma n_step_update_skip:
  "\<not> n \<le> length traj \<Longrightarrow> n_step_update env n alpha gamma ns na d traj w = Inr (traj, w)"
  by (simp add: n_step_update_def)

lemma n_step_update_trace:
  assumes "n_step_update env n alpha gamma ns na d traj w = Inr (traj', w')"
  shows "(n \<le> length traj \<longrightarrow>
            (\<exists>e x. traj = e # traj' \<and> trace w' = trace w @ [Wrote (fst e) (fst (snd e)) x])) \<and>
         (\<not> n \<le> length traj \<longrightarrow> traj' = traj \<and> w' = w)"
proof (cases "n \<le> length traj")
  case False
  with assms show ?thesis by (simp add: n_step_update_def)
next
  case True
  from n_step_update_inv [OF assms True] obtain s_tau a_tau r0 G w1 old w2 where
    traj: "traj = (s_tau, a_tau, r0) # traj'" and
    dT: "d \<Longrightarrow> G = n_step_return gamma traj n \<and> w1 = w" and
    dF: "\<not> d \<Longrightarrow> \<exists>a' x. na = Some a' \<and> q_read env w ns a' = Inr (x, w1) \<and>
               G = n_step_return gamma traj n + gamma ^ n * x" and
    rd: "q_read env w1 s_tau a_tau = Inr (old, w2)" and
    w': "w' = q_write env w2 s_tau a_tau (old + alpha * (G - old))"
    by blast
  have "trace w1 = trace w"
  proof (cases d)
    case True
    with dT show ?thesis by simp
  next
    case False
    with dF obtain a' x where "q_read env w ns a' = Inr (x, w1)" by blast
    from q_read_effect [OF this] show ?thesis by simp
  qed
  moreover from q_read_effect [OF rd] have "trace w2 = trace w1" by simp
  ultimately have "trace w' = trace w @ [Wrote s_tau a_tau (old + alpha * (G - old))]"
    using w' q_write_effect [of env w2 s_tau a_tau] by simp
  with traj True show ?thesis by auto
qed

lemma n_step_body_inv:
  assumes "n_step_body env n alpha gamma eps state act tot traj w =
             Inr (ns, na, tot', d, traj', w')"
  obtains a r w1 where "act = Some a" "step env state a = Inr (ns, r, d)" "tot' = tot + r"
    "n_step_next_action env eps ns d (w\<lparr>trace := trace w @ [Stored state a r]\<rparr>) = Inr (na, w1)"
    "n_step_update env n alpha gamma ns na d (traj @ [(state, a, r)]) w1 = Inr (traj', w')"
proof -
  from assms obtain a where act: "act = Some a"
    by (cases act) (simp_all add: n_step_body_def)
  obtain x where st: "step env state a = Inr x"
    using assms act by (cases "step env state a") (simp_all add: n_step_body_def)
  obtain ns0 r d0 where x: "x = (ns0, r, d0)" by (cases x)
  let ?w0 = "w\<lparr>trace := trace w @ [Stored state a r]\<rparr>"
  obtain y where nx: "n_step_next_action env eps ns0 d0 ?w0 = Inr y"
    using assms act st x
    by (cases "n_step_next_action env eps ns0 d0 ?w0") (simp_all add: n_step_body_def)
  obtain na0 w1 where y: "y = (na0, w1)" by (cases y)
  obtain z where up: "n_step_update env n alpha gamma ns0 na0 d0 (traj @ [(state, a, r)]) w1 = Inr z"
    using assms act st x nx y
    by (cases "n_step_update env n alpha gamma ns0 na0 d0 (traj @ [(state, a, r)]) w1")
       (simp_all add: n_step_body_def)
  obtain t2 w2 where z: "z = (t2, w2)" by (cases z)
  from assms act st x nx y up z
  have fin: "ns0 = ns \<and> na0 = na \<and> tot' = tot + r \<and> d0 = d \<and> t2 = traj' \<and> w2 = w'"
    by (auto simp add: n_step_body_def)
  show ?thesis
  proof (rule that [of a r w1])
    show "act = Some a" by (rule act)
    show "step env state a = Inr (ns, r, d)" using st x fin by simp
    show "tot' = tot + r" using fin by simp
    show "n_step_next_action env eps ns d (w\<lparr>trace := trace w @ [Stored state a r]\<rparr>) = Inr (na, w1)"
      using nx y fin by simp
    show "n_step_update env n alpha gamma ns na d (traj @ [(state, a, r)]) w1 = Inr (traj', w')"
      using up z fin by simp
  qed
qed

lemma n_step_body_events:
  assumes "n_step_body env n alpha gamma eps state act tot traj w =
             Inr (ns, na, tot', d, traj', w')"
  obtains a r es where
    "act = Some a" "step env state a = Inr (ns, r, d)" "tot' = tot + r"
    "trace w' = trace w @ Stored state a r # es" "stored es = []"
    "n \<le> Suc (length traj) \<longrightarrow>
       (\<exists>e. traj @ [(state, a, r)] = e # traj' \<and> map pair_of (writes es) = [pair_of e])"
    "\<not> n \<le> Suc (length traj) \<longrightarrow> traj' = traj @ [(state, a, r)] \<and> writes es = []"
proof -
  from assms obtain a r w1 where act: "act = Some a" and st: "step env state a = Inr (ns, r, d)"
    and toteq: "tot' = tot + r" and
    nx: "n_step_next_action env eps ns d (w\<lparr>trace := trace w @ [Stored state a r]\<rparr>) = Inr (na, w1)" and
    up: "n_step_update env n alpha gamma ns na d (traj @ [(state, a, r)]) w1 = Inr (traj', w')"
    by (rule n_step_body_inv)
  from n_step_next_action_trace [OF nx]
  have t1: "trace w1 = trace w @ Stored state a r # (if d then [] else [Chose ns])" by simp
  from n_step_update_trace [OF up]
  have u1: "n \<le> Suc (length traj) \<longrightarrow>
            (\<exists>e x. traj @ [(state, a, r)] = e # traj' \<and>
                trace w' = trace w1 @ [Wrote (fst e) (fst (snd e)) x])"
    and u2: "\<not> n \<le> Suc (length traj) \<longrightarrow> traj' = traj @ [(state, a, r)] \<and> w' = w1" by simp_all
  show ?thesis
  proof (cases "n \<le> Suc (length traj)")
    case True
    with u1 obtain e x where e: "traj @ [(state, a, r)] = e # traj'"
      and t': "trace w' = trace w1 @ [Wrote (fst e) (fst (snd e)) x]" by blast
    let ?es = "(if d then [] else [Chose ns]) @ [Wrote (fst e) (fst (snd e)) x]"
    show ?thesis
    proof (rule that [of a r ?es])
      show "trace w' = trace w @ Stored state a r # ?es" using t1 t' by simp
      show "stored ?es = []" by simp
      show "n \<le> Suc (length traj) \<longrightarrow>
       (\<exists>e'. traj @ [(state, a, r)] = e' # traj' \<and> map pair_of (writes ?es) = [pair_of e'])"
        using e by (simp add: pair_of_def)
      show "\<not> n \<le> Suc (length traj) \<longrightarrow> traj' = traj @ [(state, a, r)] \<and> writes ?es = []"
        using True by simp
    qed (rule act st toteq)+
  next
    case False
    let ?es = "(if d then [] else [Chose ns])"
    show ?thesis
    proof (rule that [of a r ?es])
      show "trace w' = trace w @ Stored state a r # ?es" using False u2 t1 by simp
      show "stored ?es = []" by simp
      show "n \<le> Suc (length traj) \<longrightarrow>
       (\<exists>e'. traj @ [(state, a, r)] = e' # traj' \<and> map pair_of (writes ?es) = [pair_of e'])"
        using False by simp
      show "\<not> n \<le> Suc (length traj) \<longrightarrow> traj' = traj @ [(state, a, r)] \<and> writes ?es = []"
        using False u2 by simp
    qed (rule act st toteq)+
  qed
qed

subsection \<open>Invariant rules for the loops\<close>

lemma n_step_loop_rule:
  assumes run: "n_step_loop env n alpha gamma eps cap state act tot d traj c w =
                  Inr (state', act', tot', d', traj', k, w')"
    and init: "I state act tot d traj c w"
    and pres: "\<And>state act tot d traj c w ns na tot1 d1 traj1 w1.
        I state act tot d traj c w \<Longrightarrow> \<not> d \<Longrightarrow> c < cap \<Longrightarrow>
        n_step_body env n alpha gamma eps state act tot traj w = Inr (ns, na, tot1, d1, traj1, w1) \<Longrightarrow>
        I ns na tot1 d1 traj1 (Suc c) w1"
  shows "I state' act' tot' d' traj' k w' \<and> (d' \<or> cap \<le> k)"
  using run init pres
proof (induction env n alpha gamma eps cap state act tot d traj c w rule: n_step_loop.induct)
  case (1 env n alpha gamma eps cap state act tot d traj c w)
  show ?case
  proof (cases "\<not> d \<and> c < cap")
    case False
    with "1.prems"(1) have "state' = state \<and> act' = act \<and> tot' = tot \<and> d' = d \<and> traj' = traj \<and>
        k = c \<and> w' = w"
      by (subst (asm) n_step_loop.simps) auto
    with "1.prems"(2) False show ?thesis by auto
  next
    case True
    obtain b where body: "n_step_body env n alpha gamma eps state act tot traj w = Inr b"
      using "1.prems"(1) True
      by (cases "n_step_body env n alpha gamma eps state act tot traj w")
         (subst (asm) n_step_loop.simps, simp)+
    obtain ns na tot1 d1 traj1 w1 where b: "b = (ns, na, tot1, d1, traj1, w1)"
      by (cases b) auto
    from "1.prems"(1) True body b
    have rec: "n_step_loop env n alpha gamma eps cap ns na tot1 d1 traj1 (Suc c) w1 =
                  Inr (state', act', tot', d', traj', k, w')"
      by (subst (asm) n_step_loop.simps) simp
    from True have nd: "\<not> d" and lt: "c < cap" by simp_all
    have I1: "I ns na tot1 d1 traj1 (Suc c) w1"
      by (rule "1.prems"(3) [OF "1.prems"(2) nd lt body [unfolded b]])
    show ?thesis
      by (rule "1.IH" [OF True body [unfolded b] refl refl refl refl refl rec I1])
         (rule "1.prems"(3); assumption)
  qed
qed

lemma q_learning_episode_rule:
  assumes run: "q_learning_episode env alpha gamma eps state tot w = Some (Inr (tot', w'))"
    and init: "I state tot w"
    and pres: "\<And>state tot w ns tot1 d w1.
        I state tot w \<Longrightarrow>
        q_learning_step env alpha gamma eps state tot w = Inr (ns, tot1, d, w1) \<Longrightarrow>
        (d \<longrightarrow> Q tot1 w1) \<and> (\<not> d \<longrightarrow> I ns tot1 w1)"
  shows "Q tot' w'"
proof -
  have "\<forall>tot' w'. r = Inr (tot', w') \<longrightarrow> I state tot w \<longrightarrow> Q tot' w'"
    if "q_learning_episode env alpha gamma eps state tot w = Some r" for r
    using that pres
  proof (induction env alpha gamma eps state tot w r
      rule: q_learning_episode.raw_induct [rotated 1, consumes 1, case_names unfold])
    case (unfold loop env alpha gamma eps state tot w r)
    note pres = unfold(3)
    show ?case
    proof (intro allI impI)
      fix tot' w'
      assume r: "r = Inr (tot', w')" and I: "I state tot w"
      obtain b where body: "q_learning_step env alpha gamma eps state tot w = Inr b"
        using unfold(2) r by (cases "q_learning_step env alpha gamma eps state tot w") simp_all
      obtain ns tot1 d w1 where b: "b = (ns, tot1, d, w1)" by (cases b) auto
      from pres [OF I body [unfolded b]]
      have pd: "d \<longrightarrow> Q tot1 w1" and pn: "\<not> d \<longrightarrow> I ns tot1 w1" by simp_all
      show "Q tot' w'"
      proof (cases d)
        case True
        with unfold(2) body b r have "tot' = tot1 \<and> w' = w1" by auto
        with pd True show ?thesis by simp
      next
        case False
        with unfold(2) body b have rec: "loop env alpha gamma eps ns tot1 w1 = Some r" by simp
        have "\<forall>tot' w'. r = Inr (tot', w') \<longrightarrow> I ns tot1 w1 \<longrightarrow> Q tot' w'"
          by (rule unfold(1) [OF rec]) (rule pres; assumption)
        with r pn False show ?thesis by simp
      qed
    qed
  qed
  with run init show ?thesis by simp
qed


lemma sarsa_loop_rule:
  assumes run: "sarsa_loop env alpha gamma eps state a tot w = Some (Inr (tot', w'))"
    and init: "I state a tot w"
    and pres: "\<And>state a tot w ns na tot1 d w1.
        I state a tot w \<Longrightarrow>
        sarsa_step env alpha gamma eps state a tot w = Inr (ns, na, tot1, d, w1) \<Longrightarrow>
        (d \<longrightarrow> Q tot1 w1) \<and> (\<not> d \<longrightarrow> I ns na tot1 w1)"
  shows "Q tot' w'"
proof -
  have "\<forall>tot' w'. r = Inr (tot', w') \<longrightarrow> I state a tot w \<longrightarrow> Q tot' w'"
    if "sarsa_loop env alpha gamma eps state a tot w = Some r" for r
    using that pres
  proof (induction env alpha gamma eps state a tot w r
      rule: sarsa_loop.raw_induct [rotated 1, consumes 1, case_names unfold])
    case (unfold loop env alpha gamma eps state a tot w r)
    note pres = unfold(3)
    show ?case
    proof (intro allI impI)
      fix tot' w'
      assume r: "r = Inr (tot', w')" and I: "I state a tot w"
      obtain b where body: "sarsa_step env alpha gamma eps state a tot w = Inr b"
        using unfold(2) r by (cases "sarsa_step env alpha gamma eps state a tot w") simp_all
      obtain ns na tot1 d w1 where b: "b = (ns, na, tot1, d, w1)" by (cases b) auto
      from pres [OF I body [unfolded b]]
      have pd: "d \<longrightarrow> Q tot1 w1" and pn: "\<not> d \<longrightarrow> I ns na tot1 w1" by simp_all
      show "Q tot' w'"
      proof (cases d)
        case True
        with unfold(2) body b r have "tot' = tot1 \<and> w' = w1" by auto
        with pd True show ?thesis by simp
      next
        case False
        with unfold(2) body b have rec: "loop env alpha gamma eps ns na tot1 w1 = Some r" by simp
        have "\<forall>tot' w'. r = Inr (tot', w') \<longrightarrow> I ns na tot1 w1 \<longrightarrow> Q tot' w'"
          by (rule unfold(1) [OF rec]) (rule pres; assumption)
        with r pn False show ?thesis by simp
      qed
    qed
  qed
  with run init show ?thesis by simp
qed

lemma expected_sarsa_episode_rule:
  assumes run: "expected_sarsa_episode env alpha gamma eps state tot w = Some (Inr (tot', w'))"
    and init: "I state tot w"
    and pres: "\<And>state tot w ns tot1 d w1.
        I state tot w \<Longrightarrow>
        expected_sarsa_step env alpha gamma eps state tot w = Inr (ns, tot1, d, w1) \<Longrightarrow>
        (d \<longrightarrow> Q tot1 w1) \<and> (\<not> d \<longrightarrow> I ns tot1 w1)"
  shows "Q tot' w'"
proof -
  have "\<forall>tot' w'. r = Inr (tot', w') \<longrightarrow> I state tot w \<longrightarrow> Q tot' w'"
    if "expected_sarsa_episode env alpha gamma eps state tot w = Some r" for r
    using that pres
  proof (induction env alpha gamma eps state tot w r
      rule: expected_sarsa_episode.raw_induct [rotated 1, consumes 1, case_names unfold])
    case (unfold loop env alpha gamma eps state tot w r)
    note pres = unfold(3)
    show ?case
    proof (intro allI impI)
      fix tot' w'
      assume r: "r = Inr (tot', w')" and I: "I state tot w"
      obtain b where body: "expected_sarsa_step env alpha gamma eps state tot w = Inr b"
        using unfold(2) r by (cases "expected_sarsa_step env alpha gamma eps state tot w") simp_all
      obtain ns tot1 d w1 where b: "b = (ns, tot1, d, w1)" by (cases b) auto
      from pres [OF I body [unfolded b]]
      have pd: "d \<longrightarrow> Q tot1 w1" and pn: "\<not> d \<longrightarrow> I ns tot1 w1" by simp_all
      show "Q tot' w'"
      proof (cases d)
        case True
        with unfold(2) body b r have "tot' = tot1 \<and> w' = w1" by auto
        with pd True show ?thesis by simp
      next
        case False
        with unfold(2) body b have rec: "loop env alpha gamma eps ns tot1 w1 = Some r" by simp
        have "\<forall>tot' w'. r = Inr (tot', w') \<longrightarrow> I ns tot1 w1 \<longrightarrow> Q tot' w'"
          by (rule unfold(1) [OF rec]) (rule pres; assumption)
        with r pn False show ?thesis by simp
      qed
    qed
  qed
  with run init show ?thesis by simp
qed

subsection \<open>What one pass through a loop body consists of\<close>

lemma q_learning_step_inv:
  assumes "q_learning_step env alpha gamma eps state tot w = Inr (ns, tot', d, w')"
  obtains a w1 r old w2 next_row w3 next_max where
    "choose_action_e_greedy env w state (action_keys env) eps = Inr (a, w1)"
    "step env state a = Inr (ns, r, d)" "tot' = tot + r"
    "q_read env w1 state a = Inr (old, w2)"
    "q_row env w2 ns = (next_row, w3)"
    "py_max (map snd next_row) = Inr next_max"
    "w' = q_write env w3 state a (old + alpha * (r + gamma * next_max - old))"
proof -
  obtain c where ch: "choose_action_e_greedy env w state (action_keys env) eps = Inr c"
    using assms by (cases "choose_action_e_greedy env w state (action_keys env) eps")
      (simp_all add: q_learning_step_def)
  obtain a w1 where c: "c = (a, w1)" by (cases c)
  obtain x where st: "step env state a = Inr x"
    using assms ch c by (cases "step env state a") (simp_all add: q_learning_step_def)
  obtain ns0 r d0 where x: "x = (ns0, r, d0)" by (cases x)
  obtain y where rd: "q_read env w1 state a = Inr y"
    using assms ch c st x by (cases "q_read env w1 state a") (simp_all add: q_learning_step_def)
  obtain old w2 where y: "y = (old, w2)" by (cases y)
  obtain next_row w3 where qr: "q_row env w2 ns0 = (next_row, w3)" by (cases "q_row env w2 ns0")
  obtain next_max where mx: "py_max (map snd next_row) = Inr next_max"
    using assms ch c st x rd y qr
    by (cases "py_max (map snd next_row)") (simp_all add: q_learning_step_def)
  from assms ch c st x rd y qr mx
  have fin: "ns0 = ns \<and> tot' = tot + r \<and> d0 = d \<and>
      w' = q_write env w3 state a (old + alpha * (r + gamma * next_max - old))"
    by (auto simp add: q_learning_step_def Let_def)
  show ?thesis
  proof (rule that [of a w1 r old w2 next_row w3 next_max])
    show "choose_action_e_greedy env w state (action_keys env) eps = Inr (a, w1)"
      using ch c by simp
    show "step env state a = Inr (ns, r, d)" using st x fin by simp
    show "tot' = tot + r" using fin by simp
    show "q_read env w1 state a = Inr (old, w2)" using rd y by simp
    show "q_row env w2 ns = (next_row, w3)" using qr fin by simp
    show "py_max (map snd next_row) = Inr next_max" by (rule mx)
    show "w' = q_write env w3 state a (old + alpha * (r + gamma * next_max - old))"
      using fin by simp
  qed
qed

lemma sarsa_step_inv:
  assumes "sarsa_step env alpha gamma eps state a tot w = Inr (ns, na, tot', d, w')"
  obtains r w1 old w2 nv w3 where
    "step env state a = Inr (ns, r, d)" "tot' = tot + r"
    "choose_action_e_greedy env w ns (action_keys env) eps = Inr (na, w1)"
    "q_read env w1 state a = Inr (old, w2)"
    "q_read env w2 ns na = Inr (nv, w3)"
    "w' = q_write env w3 state a (old + alpha * (r + gamma * nv - old))"
proof -
  obtain x where st: "step env state a = Inr x"
    using assms by (cases "step env state a") (simp_all add: sarsa_step_def)
  obtain ns0 r d0 where x: "x = (ns0, r, d0)" by (cases x)
  obtain c where ch: "choose_action_e_greedy env w ns0 (action_keys env) eps = Inr c"
    using assms st x by (cases "choose_action_e_greedy env w ns0 (action_keys env) eps")
      (simp_all add: sarsa_step_def)
  obtain na0 w1 where c: "c = (na0, w1)" by (cases c)
  obtain y where rd: "q_read env w1 state a = Inr y"
    using assms st x ch c by (cases "q_read env w1 state a") (simp_all add: sarsa_step_def)
  obtain old w2 where y: "y = (old, w2)" by (cases y)
  obtain z where rn: "q_read env w2 ns0 na0 = Inr z"
    using assms st x ch c rd y by (cases "q_read env w2 ns0 na0") (simp_all add: sarsa_step_def)
  obtain nv w3 where z: "z = (nv, w3)" by (cases z)
  from assms st x ch c rd y rn z
  have fin: "ns0 = ns \<and> na0 = na \<and> tot' = tot + r \<and> d0 = d \<and>
      w' = q_write env w3 state a (old + alpha * (r + gamma * nv - old))"
    by (auto simp add: sarsa_step_def Let_def)
  show ?thesis
  proof (rule that [of r w1 old w2 nv w3])
    show "step env state a = Inr (ns, r, d)" using st x fin by simp
    show "tot' = tot + r" using fin by simp
    show "choose_action_e_greedy env w ns (action_keys env) eps = Inr (na, w1)"
      using ch c fin by simp
    show "q_read env w1 state a = Inr (old, w2)" using rd y by simp
    show "q_read env w2 ns na = Inr (nv, w3)" using rn z fin by simp
    show "w' = q_write env w3 state a (old + alpha * (r + gamma * nv - old))"
      using fin by simp
  qed
qed

lemma expected_sarsa_step_inv:
  assumes "expected_sarsa_step env alpha gamma eps state tot w = Inr (ns, tot', d, w')"
  obtains a w1 r old w2 next_row w3 best eq where
    "choose_action_e_greedy env w state (action_keys env) eps = Inr (a, w1)"
    "step env state a = Inr (ns, r, d)" "tot' = tot + r"
    "q_read env w1 state a = Inr (old, w2)"
    "q_row env w2 ns = (next_row, w3)"
    "dict_argmax next_row = Inr best"
    "expected_q_loop eps (length (action_keys env)) best next_row (action_keys env) 0 = Inr eq"
    "w' = q_write env w3 state a (old + alpha * (r + gamma * eq - old))"
proof -
  obtain c where ch: "choose_action_e_greedy env w state (action_keys env) eps = Inr c"
    using assms by (cases "choose_action_e_greedy env w state (action_keys env) eps")
      (simp_all add: expected_sarsa_step_def)
  obtain a w1 where c: "c = (a, w1)" by (cases c)
  obtain x where st: "step env state a = Inr x"
    using assms ch c by (cases "step env state a") (simp_all add: expected_sarsa_step_def)
  obtain ns0 r d0 where x: "x = (ns0, r, d0)" by (cases x)
  obtain y where rd: "q_read env w1 state a = Inr y"
    using assms ch c st x by (cases "q_read env w1 state a") (simp_all add: expected_sarsa_step_def)
  obtain old w2 where y: "y = (old, w2)" by (cases y)
  obtain next_row w3 where qr: "q_row env w2 ns0 = (next_row, w3)" by (cases "q_row env w2 ns0")
  obtain best where bs: "dict_argmax next_row = Inr best"
    using assms ch c st x rd y qr
    by (cases "dict_argmax next_row") (simp_all add: expected_sarsa_step_def)
  obtain eq where ex:
    "expected_q_loop eps (length (action_keys env)) best next_row (action_keys env) 0 = Inr eq"
    using assms ch c st x rd y qr bs
    by (cases "expected_q_loop eps (length (action_keys env)) best next_row (action_keys env) 0")
       (simp_all add: expected_sarsa_step_def)
  from assms ch c st x rd y qr bs ex
  have fin: "ns0 = ns \<and> tot' = tot + r \<and> d0 = d \<and>
      w' = q_write env w3 state a (old + alpha * (r + gamma * eq - old))"
    by (auto simp add: expected_sarsa_step_def Let_def)
  show ?thesis
  proof (rule that [of a w1 r old w2 next_row w3 best eq])
    show "choose_action_e_greedy env w state (action_keys env) eps = Inr (a, w1)"
      using ch c by simp
    show "step env state a = Inr (ns, r, d)" using st x fin by simp
    show "tot' = tot + r" using fin by simp
    show "q_read env w1 state a = Inr (old, w2)" using rd y by simp
    show "q_row env w2 ns = (next_row, w3)" using qr fin by simp
    show "dict_argmax next_row = Inr best" by (rule bs)
    show "expected_q_loop eps (length (action_keys env)) best next_row (action_keys env) 0 = Inr eq"
      by (rule ex)
    show "w' = q_write env w3 state a (old + alpha * (r + gamma * eq - old))"
      using fin by simp
  qed
qed

section \<open>N-step SARSA: the step cap and the drain\<close>




subsection \<open>The drain\<close>

lemma fold_sum_upt:
  fixes f :: "nat \<Rightarrow> real"
  shows "fold (\<lambda>i G. G + f i) [0..<k] G0 = G0 + (\<Sum>i<k. f i)"
  by (induction k) simp_all

lemma n_step_return_full: "n_step_return gamma traj (length traj) = discounted_rewards gamma traj"
  by (simp add: n_step_return_def discounted_rewards_def fold_sum_upt)

lemma n_step_drain_head:
  assumes "n_step_drain env alpha gamma ((s, a, r) # rest) w = Inr (traj', w')"
  shows "\<exists>old w1. q_read env w s a = Inr (old, w1) \<and>
           n_step_drain env alpha gamma rest
             (q_write env w1 s a
                (old + alpha * (discounted_rewards gamma ((s, a, r) # rest) - old))) =
           Inr (traj', w')"
proof -
  obtain y where rd: "q_read env w s a = Inr y"
    using assms by (cases "q_read env w s a") (simp_all add: Let_def)
  obtain old w1 where y: "y = (old, w1)" by (cases y)
  from assms rd y n_step_return_full [of gamma "(s, a, r) # rest"] show ?thesis
    by (simp add: Let_def)
qed

lemma n_step_drain_result:
  "n_step_drain env alpha gamma traj w = Inr (traj', w') \<Longrightarrow>
     traj' = [] \<and>
     map pair_of (writes (trace w')) = map pair_of (writes (trace w)) @ map pair_of traj \<and>
     stored (trace w') = stored (trace w)"
proof (induction traj arbitrary: w)
  case Nil
  then show ?case by simp
next
  case (Cons e rest)
  obtain s a r where e: "e = (s, a, r)" by (cases e)
  from n_step_drain_head [OF Cons.prems [unfolded e]] obtain old w1 where
    rd: "q_read env w s a = Inr (old, w1)" and
    rest: "n_step_drain env alpha gamma rest
             (q_write env w1 s a
                (old + alpha * (discounted_rewards gamma ((s, a, r) # rest) - old))) =
           Inr (traj', w')" by blast
  let ?w2 = "q_write env w1 s a (old + alpha * (discounted_rewards gamma ((s, a, r) # rest) - old))"
  from q_read_effect [OF rd] q_write_effect [of env w1 s a]
  have "trace ?w2 = trace w @
      [Wrote s a (old + alpha * (discounted_rewards gamma ((s, a, r) # rest) - old))]"
    by simp
  with Cons.IH [OF rest] e show ?case
    by (simp add: writes_append stored_append pair_of_def)
qed


lemma n_step_episode_inv:
  assumes "n_step_episode env n alpha gamma eps cap w = Inr (tot, traj', w')"
  obtains a w1 state act d traj k w2 where
    "choose_action_e_greedy env w (start_pos env) (action_keys env) eps = Inr (a, w1)"
    "n_step_loop env n alpha gamma eps cap (start_pos env) (Some a) 0 False [] 0 w1 =
       Inr (state, act, tot, d, traj, k, w2)"
    "n_step_drain env alpha gamma traj w2 = Inr (traj', w')"
proof -
  obtain c where ch: "choose_action_e_greedy env w (start_pos env) (action_keys env) eps = Inr c"
    using assms by (cases "choose_action_e_greedy env w (start_pos env) (action_keys env) eps")
      (simp_all add: n_step_episode_def)
  obtain a w1 where c: "c = (a, w1)" by (cases c)
  obtain l where lp: "n_step_loop env n alpha gamma eps cap (start_pos env) (Some a) 0 False [] 0 w1 = Inr l"
    using assms ch c
    by (cases "n_step_loop env n alpha gamma eps cap (start_pos env) (Some a) 0 False [] 0 w1")
       (simp_all add: n_step_episode_def)
  obtain state act tot0 d traj k w2 where l: "l = (state, act, tot0, d, traj, k, w2)"
    by (cases l) auto
  obtain z where dr: "n_step_drain env alpha gamma traj w2 = Inr z"
    using assms ch c lp l
    by (cases "n_step_drain env alpha gamma traj w2") (simp_all add: n_step_episode_def)
  obtain t3 w3 where z: "z = (t3, w3)" by (cases z)
  from assms ch c lp l dr z have fin: "tot0 = tot \<and> t3 = traj' \<and> w3 = w'"
    by (auto simp add: n_step_episode_def)
  show ?thesis
  proof (rule that [of a w1 state act d traj k w2])
    show "choose_action_e_greedy env w (start_pos env) (action_keys env) eps = Inr (a, w1)"
      using ch c by simp
    show "n_step_loop env n alpha gamma eps cap (start_pos env) (Some a) 0 False [] 0 w1 =
       Inr (state, act, tot, d, traj, k, w2)" using lp l fin by simp
    show "n_step_drain env alpha gamma traj w2 = Inr (traj', w')" using dr z fin by simp
  qed
qed


section \<open>The table as lookups see it\<close>

lemma row_of_upd:
  "map_of q' = (map_of q)(s \<mapsto> r) \<Longrightarrow> row_of env q' = (row_of env q)(s := r)"
  by (rule ext) (simp add: row_of_def)

lemma row_of_same: "map_of q' = map_of q \<Longrightarrow> row_of env q' = row_of env q"
  by (rule ext) (simp add: row_of_def)

lemma q_row_view:
  assumes "q_row env w s = (r, w')"
  shows "r = row_of env (q_table w) s" "row_of env (q_table w') = row_of env (q_table w)"
    "rand w' = rand w" "trace w' = trace w"
    "dom (map_of (q_table w')) = insert s (dom (map_of (q_table w)))"
proof -
  from q_row_effect [OF assms] have r: "r = row_of env (q_table w) s"
    and m: "map_of (q_table w') = (map_of (q_table w))(s \<mapsto> r)"
    and g: "rand w' = rand w" and t: "trace w' = trace w" by simp_all
  show "r = row_of env (q_table w) s" by (rule r)
  from row_of_upd [OF m, of env] r show "row_of env (q_table w') = row_of env (q_table w)"
    by simp
  show "rand w' = rand w" by (rule g)
  show "trace w' = trace w" by (rule t)
  from m show "dom (map_of (q_table w')) = insert s (dom (map_of (q_table w)))" by simp
qed

lemma q_read_view:
  assumes "q_read env w s a = Inr (x, w')"
  shows "map_of (row_of env (q_table w) s) a = Some x"
    "row_of env (q_table w') = row_of env (q_table w)"
    "rand w' = rand w" "trace w' = trace w"
    "dom (map_of (q_table w')) = insert s (dom (map_of (q_table w)))"
proof -
  from q_read_effect [OF assms] have x: "map_of (row_of env (q_table w) s) a = Some x"
    and m: "map_of (q_table w') = (map_of (q_table w))(s \<mapsto> row_of env (q_table w) s)"
    and g: "rand w' = rand w" and t: "trace w' = trace w" by simp_all
  show "map_of (row_of env (q_table w) s) a = Some x" by (rule x)
  from row_of_upd [OF m, of env] show "row_of env (q_table w') = row_of env (q_table w)"
    by simp
  show "rand w' = rand w" by (rule g)
  show "trace w' = trace w" by (rule t)
  from m show "dom (map_of (q_table w')) = insert s (dom (map_of (q_table w)))" by simp
qed

lemma q_write_view:
  shows "row_of env (q_table (q_write env w s a x)) =
           (row_of env (q_table w))(s := dict_set a x (row_of env (q_table w) s))"
    "rand (q_write env w s a x) = rand w"
    "trace (q_write env w s a x) = trace w @ [Wrote s a x]"
    "dom (map_of (q_table (q_write env w s a x))) = insert s (dom (map_of (q_table w)))"
proof -
  from q_write_effect [of env w s a x]
  have m: "map_of (q_table (q_write env w s a x)) =
      (map_of (q_table w))(s \<mapsto> dict_set a x (row_of env (q_table w) s))"
    and g: "rand (q_write env w s a x) = rand w"
    and t: "trace (q_write env w s a x) = trace w @ [Wrote s a x]" by simp_all
  from row_of_upd [OF m, of env]
  show "row_of env (q_table (q_write env w s a x)) =
           (row_of env (q_table w))(s := dict_set a x (row_of env (q_table w) s))" .
  show "rand (q_write env w s a x) = rand w" by (rule g)
  show "trace (q_write env w s a x) = trace w @ [Wrote s a x]" by (rule t)
  from m show "dom (map_of (q_table (q_write env w s a x))) = insert s (dom (map_of (q_table w)))"
    by simp
qed

lemma choose_view:
  assumes "choose_action_e_greedy env w s acts eps = Inr (a, w')"
  shows "row_of env (q_table w') = row_of env (q_table w)"
    "trace w' = trace w @ [Chose s]"
    "dom (map_of (q_table w)) \<subseteq> dom (map_of (q_table w'))"
    "dom (map_of (q_table w')) \<subseteq> insert s (dom (map_of (q_table w)))"
proof -
  from choose_effect [OF assms] have t: "trace w' = trace w @ [Chose s]"
    and m: "map_of (q_table w') = map_of (q_table w) \<or>
      map_of (q_table w') = (map_of (q_table w))(s \<mapsto> row_of env (q_table w) s)"
    by simp_all
  show "trace w' = trace w @ [Chose s]" by (rule t)
  from m show "row_of env (q_table w') = row_of env (q_table w)"
  proof
    assume "map_of (q_table w') = map_of (q_table w)"
    then show ?thesis by (rule row_of_same)
  next
    assume "map_of (q_table w') = (map_of (q_table w))(s \<mapsto> row_of env (q_table w) s)"
    from row_of_upd [OF this, of env] show ?thesis by simp
  qed
  from m show "dom (map_of (q_table w)) \<subseteq> dom (map_of (q_table w'))"
  proof
    assume "map_of (q_table w') = map_of (q_table w)"
    then show ?thesis by simp
  next
    assume "map_of (q_table w') = (map_of (q_table w))(s \<mapsto> row_of env (q_table w) s)"
    then show ?thesis by auto
  qed
  from m show "dom (map_of (q_table w')) \<subseteq> insert s (dom (map_of (q_table w)))"
  proof
    assume "map_of (q_table w') = map_of (q_table w)"
    then show ?thesis by auto
  next
    assume "map_of (q_table w') = (map_of (q_table w))(s \<mapsto> row_of env (q_table w) s)"
    then show ?thesis by auto
  qed
qed

section \<open>The goal's row\<close>

lemma Wrote_in_writes: "Wrote s a x \<in> set tr \<longleftrightarrow> (s, a, x) \<in> set (writes tr)"
  by (induction tr rule: writes.induct) auto

lemma Chose_append: "Chose s \<in> set (tr @ [Wrote t a x]) \<longleftrightarrow> Chose s \<in> set tr"
  by simp

lemma goal_untouched_q_row:
  "q_row env w s = (r, w') \<Longrightarrow> goal_untouched env w \<Longrightarrow> goal_untouched env w'"
  by (simp add: goal_untouched_def never_wrote_goal_def q_row_view)

lemma goal_untouched_q_read:
  "q_read env w s a = Inr (x, w') \<Longrightarrow> goal_untouched env w \<Longrightarrow> goal_untouched env w'"
  by (simp add: goal_untouched_def never_wrote_goal_def q_read_view)

lemma goal_untouched_q_write:
  "s \<noteq> goal_pos env \<Longrightarrow> goal_untouched env w \<Longrightarrow> goal_untouched env (q_write env w s a x)"
  by (simp add: goal_untouched_def never_wrote_goal_def q_write_view)

lemma goal_untouched_choose:
  "choose_action_e_greedy env w s acts eps = Inr (a, w') \<Longrightarrow> goal_untouched env w \<Longrightarrow>
   goal_untouched env w'"
  by (simp add: goal_untouched_def never_wrote_goal_def choose_view)

lemma never_chose_q_row:
  "q_row env w s = (r, w') \<Longrightarrow> never_chose_goal env w \<Longrightarrow> never_chose_goal env w'"
  by (simp add: never_chose_goal_def q_row_view)

lemma never_chose_q_read:
  "q_read env w s a = Inr (x, w') \<Longrightarrow> never_chose_goal env w \<Longrightarrow> never_chose_goal env w'"
  by (simp add: never_chose_goal_def q_read_view)

lemma never_chose_q_write:
  "never_chose_goal env w \<Longrightarrow> never_chose_goal env (q_write env w s a x)"
  by (simp add: never_chose_goal_def q_write_view)

lemma never_chose_choose:
  "choose_action_e_greedy env w s acts eps = Inr (a, w') \<Longrightarrow> s \<noteq> goal_pos env \<Longrightarrow>
   never_chose_goal env w \<Longrightarrow> never_chose_goal env w'"
  by (auto simp add: never_chose_goal_def choose_view)

lemma set_dict_set: "set (dict_set k v d) \<subseteq> insert (k, v) (set d)"
  by (induction d) (auto split: if_splits)

lemma default_row_zero: "\<forall>x \<in> snd ` set (default_row env). x = 0"
proof -
  have "\<forall>x \<in> snd ` set d. x = 0 \<Longrightarrow> \<forall>x \<in> snd ` set (fold (\<lambda>a d. dict_set a (0::real) d) ks d). x = 0"
    for ks and d :: row
  proof (induction ks arbitrary: d)
    case Nil
    then show ?case by simp
  next
    case (Cons k ks)
    have "\<forall>x \<in> snd ` set (dict_set k (0::real) d). x = 0"
      using Cons.prems set_dict_set [of k "0::real" d] by fastforce
    from Cons.IH [OF this] show ?case by simp
  qed
  from this [of "[]" "action_keys env"] show ?thesis by (simp add: default_row_def)
qed

lemma goal_untouched_zero: "goal_untouched env w \<Longrightarrow> goal_row_zero env w"
  using default_row_zero [of env]
  by (auto simp add: goal_untouched_def goal_row_zero_def row_of_def)

lemma episodic_step:
  "episodic env \<Longrightarrow> s \<noteq> goal_pos env \<Longrightarrow> step env s a = Inr (ns, r, d) \<Longrightarrow>
   (d \<longleftrightarrow> ns = goal_pos env)"
  unfolding episodic_def by blast

section \<open>One pass through a loop body and the goal\<close>

lemma q_learning_step_goal:
  assumes ep: "episodic env" and ng: "state \<noteq> goal_pos env"
    and body: "q_learning_step env alpha gamma eps state tot w = Inr (ns, tot', d, w')"
  shows "d \<longleftrightarrow> ns = goal_pos env"
    and "goal_untouched env w \<Longrightarrow> goal_untouched env w'"
    and "never_chose_goal env w \<Longrightarrow> never_chose_goal env w'"
    and "ns \<in> dom (map_of (q_table w'))"
    and "dom (map_of (q_table w)) \<subseteq> dom (map_of (q_table w'))"
proof -
  from body obtain a w1 r old w2 next_row w3 next_max where
    ch: "choose_action_e_greedy env w state (action_keys env) eps = Inr (a, w1)" and
    st: "step env state a = Inr (ns, r, d)" and "tot' = tot + r" and
    rd: "q_read env w1 state a = Inr (old, w2)" and
    qr: "q_row env w2 ns = (next_row, w3)" and
    "py_max (map snd next_row) = Inr next_max" and
    w': "w' = q_write env w3 state a (old + alpha * (r + gamma * next_max - old))"
    by (rule q_learning_step_inv)
  show "d \<longleftrightarrow> ns = goal_pos env" by (rule episodic_step [OF ep ng st])
  show "goal_untouched env w'" if "goal_untouched env w"
    unfolding w'
    by (intro goal_untouched_q_write [OF ng] goal_untouched_q_row [OF qr]
        goal_untouched_q_read [OF rd] goal_untouched_choose [OF ch] that)
  show "never_chose_goal env w'" if "never_chose_goal env w"
    unfolding w'
    by (intro never_chose_q_write never_chose_q_row [OF qr]
        never_chose_q_read [OF rd] never_chose_choose [OF ch ng] that)
  show "ns \<in> dom (map_of (q_table w'))"
    unfolding w' by (simp only: q_write_view(4) q_row_view(5) [OF qr]) simp
  show "dom (map_of (q_table w)) \<subseteq> dom (map_of (q_table w'))"
    unfolding w' using choose_view(3) [OF ch]
    by (simp only: q_write_view(4) q_row_view(5) [OF qr] q_read_view(5) [OF rd]) auto
qed

lemma expected_sarsa_step_goal:
  assumes ep: "episodic env" and ng: "state \<noteq> goal_pos env"
    and body: "expected_sarsa_step env alpha gamma eps state tot w = Inr (ns, tot', d, w')"
  shows "d \<longleftrightarrow> ns = goal_pos env"
    and "goal_untouched env w \<Longrightarrow> goal_untouched env w'"
    and "never_chose_goal env w \<Longrightarrow> never_chose_goal env w'"
    and "ns \<in> dom (map_of (q_table w'))"
    and "dom (map_of (q_table w)) \<subseteq> dom (map_of (q_table w'))"
proof -
  from body obtain a w1 r old w2 next_row w3 best eq where
    ch: "choose_action_e_greedy env w state (action_keys env) eps = Inr (a, w1)" and
    st: "step env state a = Inr (ns, r, d)" and "tot' = tot + r" and
    rd: "q_read env w1 state a = Inr (old, w2)" and
    qr: "q_row env w2 ns = (next_row, w3)" and
    "dict_argmax next_row = Inr best" and
    "expected_q_loop eps (length (action_keys env)) best next_row (action_keys env) 0 = Inr eq" and
    w': "w' = q_write env w3 state a (old + alpha * (r + gamma * eq - old))"
    by (rule expected_sarsa_step_inv)
  show "d \<longleftrightarrow> ns = goal_pos env" by (rule episodic_step [OF ep ng st])
  show "goal_untouched env w'" if "goal_untouched env w"
    unfolding w'
    by (intro goal_untouched_q_write [OF ng] goal_untouched_q_row [OF qr]
        goal_untouched_q_read [OF rd] goal_untouched_choose [OF ch] that)
  show "never_chose_goal env w'" if "never_chose_goal env w"
    unfolding w'
    by (intro never_chose_q_write never_chose_q_row [OF qr]
        never_chose_q_read [OF rd] never_chose_choose [OF ch ng] that)
  show "ns \<in> dom (map_of (q_table w'))"
    unfolding w' by (simp only: q_write_view(4) q_row_view(5) [OF qr]) simp
  show "dom (map_of (q_table w)) \<subseteq> dom (map_of (q_table w'))"
    unfolding w' using choose_view(3) [OF ch]
    by (simp only: q_write_view(4) q_row_view(5) [OF qr] q_read_view(5) [OF rd]) auto
qed

lemma sarsa_step_goal:
  assumes ep: "episodic env" and ng: "state \<noteq> goal_pos env"
    and body: "sarsa_step env alpha gamma eps state a tot w = Inr (ns, na, tot', d, w')"
  shows "d \<longleftrightarrow> ns = goal_pos env"
    and "goal_untouched env w \<Longrightarrow> goal_untouched env w'"
    and "\<exists>x. trace w' = trace w @ [Chose ns, Wrote state a x]"
    and "ns \<in> dom (map_of (q_table w'))"
    and "dom (map_of (q_table w)) \<subseteq> dom (map_of (q_table w'))"
proof -
  from body obtain r w1 old w2 nv w3 where
    st: "step env state a = Inr (ns, r, d)" and "tot' = tot + r" and
    ch: "choose_action_e_greedy env w ns (action_keys env) eps = Inr (na, w1)" and
    rd: "q_read env w1 state a = Inr (old, w2)" and
    rn: "q_read env w2 ns na = Inr (nv, w3)" and
    w': "w' = q_write env w3 state a (old + alpha * (r + gamma * nv - old))"
    by (rule sarsa_step_inv)
  show "d \<longleftrightarrow> ns = goal_pos env" by (rule episodic_step [OF ep ng st])
  show "goal_untouched env w'" if "goal_untouched env w"
    unfolding w'
    by (intro goal_untouched_q_write [OF ng] goal_untouched_q_read [OF rn]
        goal_untouched_q_read [OF rd] goal_untouched_choose [OF ch] that)
  have "trace w' = trace w @ [Chose ns, Wrote state a (old + alpha * (r + gamma * nv - old))]"
    unfolding w'
    by (simp only: q_write_view(3) q_read_view(4) [OF rn] q_read_view(4) [OF rd] choose_view(2) [OF ch])
       simp
  then show "\<exists>x. trace w' = trace w @ [Chose ns, Wrote state a x]" by (rule exI)
  show "ns \<in> dom (map_of (q_table w'))"
    unfolding w' by (simp only: q_write_view(4) q_read_view(5) [OF rn]) simp
  show "dom (map_of (q_table w)) \<subseteq> dom (map_of (q_table w'))"
    unfolding w' using choose_view(3) [OF ch]
    by (simp only: q_write_view(4) q_read_view(5) [OF rn] q_read_view(5) [OF rd]) auto
qed

section \<open>N-step SARSA and the goal\<close>

lemma nstep_safe_stored:
  "nstep_safe env w \<Longrightarrow> nstep_safe env (w\<lparr>trace := trace w @ [Stored s a r]\<rparr>)"
  by (simp add: nstep_safe_def goal_untouched_def never_wrote_goal_def never_chose_goal_def)

lemma nstep_safe_choose:
  assumes "choose_action_e_greedy env w s acts eps = Inr (a, w')" "s \<noteq> goal_pos env"
    "nstep_safe env w"
  shows "nstep_safe env w'"
  using assms choose_view(4) [OF assms(1)]
  by (auto simp add: nstep_safe_def goal_untouched_choose never_chose_choose)

lemma nstep_safe_q_read:
  assumes "q_read env w s a = Inr (x, w')" "s \<noteq> goal_pos env" "nstep_safe env w"
  shows "nstep_safe env w'"
  using assms q_read_view(5) [OF assms(1)]
  by (auto simp add: nstep_safe_def goal_untouched_q_read never_chose_q_read)

lemma nstep_safe_q_write:
  assumes "s \<noteq> goal_pos env" "nstep_safe env w"
  shows "nstep_safe env (q_write env w s a x)"
  using assms q_write_view(4) [of env w s a x]
  by (auto simp add: nstep_safe_def goal_untouched_q_write never_chose_q_write)

lemma n_step_next_action_safe:
  assumes nx: "n_step_next_action env eps ns d w = Inr (na, w')"
    and dg: "d \<longleftrightarrow> ns = goal_pos env" and safe: "nstep_safe env w"
  shows "nstep_safe env w'" and "\<not> d \<longrightarrow> na \<noteq> None"
proof -
  from n_step_next_action_effect [OF nx]
  have dT: "d \<longrightarrow> na = None \<and> w' = w"
    and dF: "\<not> d \<longrightarrow> (\<exists>a. na = Some a \<and>
            choose_action_e_greedy env w ns (action_keys env) eps = Inr (a, w'))" by simp_all
  show "nstep_safe env w'"
  proof (cases d)
    case True
    with dT safe show ?thesis by simp
  next
    case False
    with dF obtain a where "choose_action_e_greedy env w ns (action_keys env) eps = Inr (a, w')"
      by blast
    moreover from False dg have "ns \<noteq> goal_pos env" by simp
    ultimately show ?thesis using safe by (rule nstep_safe_choose)
  qed
  from dF show "\<not> d \<longrightarrow> na \<noteq> None" by auto
qed

lemma n_step_update_safe:
  assumes up: "n_step_update env n alpha gamma ns na d traj w = Inr (traj', w')"
    and dg: "d \<longleftrightarrow> ns = goal_pos env" and safe: "nstep_safe env w"
    and tr: "\<forall>e \<in> set traj. fst e \<noteq> goal_pos env"
  shows "nstep_safe env w'" and "\<forall>e \<in> set traj'. fst e \<noteq> goal_pos env"
proof -
  have both: "nstep_safe env w' \<and> (\<forall>e \<in> set traj'. fst e \<noteq> goal_pos env)"
  proof (cases "n \<le> length traj")
    case False
    with up have "traj' = traj \<and> w' = w" by (simp add: n_step_update_def)
    with safe tr show ?thesis by simp
  next
    case True
    from n_step_update_inv [OF up True] obtain s_tau a_tau r0 G w1 old w2 where
      traj: "traj = (s_tau, a_tau, r0) # traj'" and
      dT: "d \<Longrightarrow> G = n_step_return gamma traj n \<and> w1 = w" and
      dF: "\<not> d \<Longrightarrow> \<exists>a' x. na = Some a' \<and> q_read env w ns a' = Inr (x, w1) \<and>
               G = n_step_return gamma traj n + gamma ^ n * x" and
      rd: "q_read env w1 s_tau a_tau = Inr (old, w2)" and
      w': "w' = q_write env w2 s_tau a_tau (old + alpha * (G - old))"
      by blast
    from traj tr have sg: "s_tau \<noteq> goal_pos env" and tr': "\<forall>e \<in> set traj'. fst e \<noteq> goal_pos env"
      by simp_all
    have s1: "nstep_safe env w1"
    proof (cases d)
      case True
      with dT safe show ?thesis by simp
    next
      case False
      with dF obtain a' x where "q_read env w ns a' = Inr (x, w1)" by blast
      moreover from False dg have "ns \<noteq> goal_pos env" by simp
      ultimately show ?thesis using safe by (rule nstep_safe_q_read)
    qed
    from rd sg s1 have "nstep_safe env w2" by (rule nstep_safe_q_read)
    with sg have "nstep_safe env w'" unfolding w' by (rule nstep_safe_q_write)
    with tr' show ?thesis by simp
  qed
  from both show "nstep_safe env w'" by simp
  from both show "\<forall>e \<in> set traj'. fst e \<noteq> goal_pos env" by simp
qed

lemma n_step_body_goal:
  assumes ep: "episodic env" and ng: "state \<noteq> goal_pos env"
    and tr: "\<forall>e \<in> set traj. fst e \<noteq> goal_pos env"
    and safe: "nstep_safe env w"
    and body: "n_step_body env n alpha gamma eps state act tot traj w =
                 Inr (ns, na, tot', d, traj', w')"
  shows "d \<longleftrightarrow> ns = goal_pos env" and "nstep_safe env w'"
    and "\<forall>e \<in> set traj'. fst e \<noteq> goal_pos env" and "\<not> d \<longrightarrow> na \<noteq> None"
proof -
  from body obtain a r w1 where "act = Some a" and st: "step env state a = Inr (ns, r, d)" and
    "tot' = tot + r" and
    nx: "n_step_next_action env eps ns d (w\<lparr>trace := trace w @ [Stored state a r]\<rparr>) = Inr (na, w1)" and
    up: "n_step_update env n alpha gamma ns na d (traj @ [(state, a, r)]) w1 = Inr (traj', w')"
    by (rule n_step_body_inv)
  show dg: "d \<longleftrightarrow> ns = goal_pos env" by (rule episodic_step [OF ep ng st])
  from n_step_next_action_safe [OF nx dg nstep_safe_stored [OF safe]]
  have s1: "nstep_safe env w1" and na: "\<not> d \<longrightarrow> na \<noteq> None" by simp_all
  from tr ng have tr1: "\<forall>e \<in> set (traj @ [(state, a, r)]). fst e \<noteq> goal_pos env" by simp
  from n_step_update_safe [OF up dg s1 tr1]
  show "nstep_safe env w'" and "\<forall>e \<in> set traj'. fst e \<noteq> goal_pos env" by simp_all
  show "\<not> d \<longrightarrow> na \<noteq> None" by (rule na)
qed

lemma n_step_drain_safe:
  "n_step_drain env alpha gamma traj w = Inr (traj', w') \<Longrightarrow>
   \<forall>e \<in> set traj. fst e \<noteq> goal_pos env \<Longrightarrow> nstep_safe env w \<Longrightarrow> nstep_safe env w'"
proof (induction traj arbitrary: w)
  case Nil
  then show ?case by simp
next
  case (Cons e rest)
  obtain s a r where e: "e = (s, a, r)" by (cases e)
  obtain y where rd: "q_read env w s a = Inr y"
    using Cons.prems(1) e by (cases "q_read env w s a") (simp_all add: Let_def)
  obtain old w1 where y: "y = (old, w1)" by (cases y)
  let ?G = "n_step_return gamma ((s, a, r) # rest) (length ((s, a, r) # rest))"
  let ?w2 = "q_write env w1 s a (old + alpha * (?G - old))"
  from Cons.prems(1) e rd y have rest: "n_step_drain env alpha gamma rest ?w2 = Inr (traj', w')"
    by (simp add: Let_def)
  from Cons.prems(2) e have sg: "s \<noteq> goal_pos env" and tr: "\<forall>e \<in> set rest. fst e \<noteq> goal_pos env"
    by simp_all
  from rd [unfolded y] sg Cons.prems(3) have "nstep_safe env w1" by (rule nstep_safe_q_read)
  with sg have "nstep_safe env ?w2" by (rule nstep_safe_q_write)
  with Cons.IH [OF rest tr] show ?case .
qed

lemma n_step_loop_safe:
  assumes ep: "episodic env"
    and run: "n_step_loop env n alpha gamma eps cap state act tot False [] 0 w =
             Inr (state', act', tot', d', traj', k, w')"
    and ng: "state \<noteq> goal_pos env" and safe: "nstep_safe env w"
  shows "nstep_safe env w' \<and> (\<forall>e \<in> set traj'. fst e \<noteq> goal_pos env)"
proof -
  let ?I = "\<lambda>(state::pos) (act::action option) (tot::real) (d::bool) (traj::trajectory) (c::nat) w1.
      (\<not> d \<longrightarrow> state \<noteq> goal_pos env) \<and> nstep_safe env w1 \<and>
      (\<forall>e \<in> set traj. fst e \<noteq> goal_pos env)"
  have "?I state' act' tot' d' traj' k w' \<and> (d' \<or> cap \<le> k)"
  proof (rule n_step_loop_rule [OF run, where I = ?I])
    show "(\<not> False \<longrightarrow> state \<noteq> goal_pos env) \<and> nstep_safe env w \<and>
      (\<forall>e \<in> set []. fst e \<noteq> goal_pos env)"
      using ng safe by simp
  next
    fix state act tot d traj c w0 ns na tot1 d1 traj1 w1
    assume inv: "(\<not> d \<longrightarrow> state \<noteq> goal_pos env) \<and> nstep_safe env w0 \<and>
      (\<forall>e \<in> set traj. fst e \<noteq> goal_pos env)"
      and nd: "\<not> d"
      and body: "n_step_body env n alpha gamma eps state act tot traj w0 =
             Inr (ns, na, tot1, d1, traj1, w1)"
    from inv nd have ng0: "state \<noteq> goal_pos env" and s0: "nstep_safe env w0"
      and tr0: "\<forall>e \<in> set traj. fst e \<noteq> goal_pos env" by simp_all
    from n_step_body_goal [OF ep ng0 tr0 s0 body]
    show "(\<not> d1 \<longrightarrow> ns \<noteq> goal_pos env) \<and> nstep_safe env w1 \<and>
      (\<forall>e \<in> set traj1. fst e \<noteq> goal_pos env)"
      by simp
  qed
  then show ?thesis by simp
qed

section \<open>Episodes and whole runs\<close>

lemma finish_inv:
  assumes "finish r = Some (Inr (w, policy, history))"
  shows "r = Some (Inr (history, w))" and "derive_policy (q_table w) = Inr policy"
proof -
  from assms obtain x where r: "r = Some x" by (cases r) (simp_all add: finish_def)
  from assms r obtain y where x: "x = Inr y" by (cases x) (simp_all add: finish_def)
  obtain h w0 where y: "y = (h, w0)" by (cases y)
  from assms r x y obtain p where dp: "derive_policy (q_table w0) = Inr p"
    by (cases "derive_policy (q_table w0)") (simp_all add: finish_def)
  from assms r x y dp have "w0 = w \<and> p = policy \<and> h = history" by (simp add: finish_def)
  with r x y dp show "r = Some (Inr (history, w))" and "derive_policy (q_table w) = Inr policy"
    by simp_all
qed

lemma derive_policy_result:
  "derive_policy q = Inr p \<Longrightarrow>
     map fst p = map fst q \<and>
     (\<forall>s r. map_of q s = Some r \<longrightarrow> (\<exists>a. dict_argmax r = Inr a \<and> map_of p s = Some a))"
proof (induction q arbitrary: p)
  case Nil
  then show ?case by simp
next
  case (Cons e q)
  obtain s0 r0 where e: "e = (s0, r0)" by (cases e)
  obtain a0 where a0: "dict_argmax r0 = Inr a0"
    using Cons.prems e by (cases "dict_argmax r0") simp_all
  obtain p0 where p0: "derive_policy q = Inr p0"
    using Cons.prems e a0 by (cases "derive_policy q") simp_all
  from Cons.prems e a0 p0 have p: "p = (s0, a0) # p0" by simp
  from Cons.IH [OF p0] have k: "map fst p0 = map fst q" and
    l: "\<forall>s r. map_of q s = Some r \<longrightarrow> (\<exists>a. dict_argmax r = Inr a \<and> map_of p0 s = Some a)"
    by simp_all
  from k l a0 show ?case unfolding p e by simp
qed

lemma policy_dom:
  assumes "derive_policy q = Inr p"
  shows "map_of p s = None \<longleftrightarrow> map_of q s = None"
proof -
  from derive_policy_result [OF assms] have "map fst p = map fst q" by simp
  then have "fst ` set p = fst ` set q" by (metis set_map)
  then show ?thesis by (simp add: map_of_eq_None_iff)
qed

subsection \<open>The default row and its first action\<close>

lemma argmax_loop_le: "\<forall>x \<in> snd ` set d. x \<le> snd best \<Longrightarrow> argmax_loop d best = best"
proof (induction d arbitrary: best)
  case Nil
  then show ?case by simp
next
  case (Cons kq d)
  obtain k q where kq: "kq = (k, q)" by (cases kq)
  from Cons.prems kq have "\<not> snd best < q" by auto
  with Cons.IH [of best] Cons.prems kq show ?case by simp
qed

lemma fold_dict_set_head:
  "\<exists>d'. fold (\<lambda>a d. dict_set a (0::real) d) ks ((k, 0) # d) = (k, 0) # d'"
proof (induction ks arbitrary: d)
  case Nil
  then show ?case by simp
next
  case (Cons a ks)
  have "\<exists>d1. dict_set a (0::real) ((k, 0) # d) = (k, 0) # d1" by simp
  then obtain d1 where "dict_set a (0::real) ((k, 0) # d) = (k, 0) # d1" ..
  with Cons.IH [of d1] show ?case by simp
qed

lemma dict_argmax_default_row:
  assumes "dict_argmax (default_row env) = Inr a"
  shows "action_keys env \<noteq> [] \<and> a = hd (action_keys env)"
proof (cases "action_keys env")
  case Nil
  with assms show ?thesis by (simp add: default_row_def dict_argmax_def)
next
  case (Cons k ks)
  from fold_dict_set_head [of ks k "[]"] obtain d' where
    d': "default_row env = (k, 0) # d'" by (auto simp add: default_row_def Cons)
  from default_row_zero [of env] d' have "\<forall>x \<in> snd ` set d'. x \<le> snd (k, 0::real)" by simp
  from argmax_loop_le [OF this] assms d' Cons show ?thesis by (simp add: dict_argmax_def)
qed

lemma goal_policy:
  assumes dp: "derive_policy (q_table w) = Inr policy"
    and gu: "goal_untouched env w"
    and dm: "goal_pos env \<in> dom (map_of (q_table w))"
  shows "map_of policy (goal_pos env) = Some (hd (action_keys env))"
proof -
  from dm obtain r where r: "map_of (q_table w) (goal_pos env) = Some r" by auto
  with gu have "r = default_row env" by (simp add: goal_untouched_def row_of_def)
  with derive_policy_result [OF dp] r obtain a where
    "dict_argmax (default_row env) = Inr a" "map_of policy (goal_pos env) = Some a" by blast
  with dict_argmax_default_row [of env a] show ?thesis by simp
qed

subsection \<open>Q-learning\<close>

lemma fresh_safe: "nstep_safe env (fresh g)"
  by (simp add: nstep_safe_def goal_untouched_def never_wrote_goal_def never_chose_goal_def
      fresh_def row_of_def)

lemma q_learning_episode_goal:
  assumes ep: "episodic env"
    and run: "q_learning_episode env alpha gamma eps (start_pos env) 0 w = Some (Inr (tot', w'))"
    and gu: "goal_untouched env w" and nc: "never_chose_goal env w"
  shows "goal_untouched env w' \<and> never_chose_goal env w' \<and>
         goal_pos env \<in> dom (map_of (q_table w'))"
proof (rule q_learning_episode_rule [OF run, where
      I = "\<lambda>state (tot::real) w1. state \<noteq> goal_pos env \<and> goal_untouched env w1 \<and>
            never_chose_goal env w1" and
      Q = "\<lambda>(tot::real) w1. goal_untouched env w1 \<and> never_chose_goal env w1 \<and>
            goal_pos env \<in> dom (map_of (q_table w1))"])
  from ep gu nc show "start_pos env \<noteq> goal_pos env \<and> goal_untouched env w \<and>
      never_chose_goal env w"
    by (simp add: episodic_def)
next
  fix state tot w0 ns tot1 d w1
  assume inv: "state \<noteq> goal_pos env \<and> goal_untouched env w0 \<and> never_chose_goal env w0"
    and body: "q_learning_step env alpha gamma eps state tot w0 = Inr (ns, tot1, d, w1)"
  from inv have ng: "state \<noteq> goal_pos env" and gu0: "goal_untouched env w0"
    and nc0: "never_chose_goal env w0" by simp_all
  note f = q_learning_step_goal [OF ep ng body]
  from f(1) f(2) [OF gu0] f(3) [OF nc0] f(4)
  show "(d \<longrightarrow> goal_untouched env w1 \<and> never_chose_goal env w1 \<and>
            goal_pos env \<in> dom (map_of (q_table w1))) \<and>
        (\<not> d \<longrightarrow> ns \<noteq> goal_pos env \<and> goal_untouched env w1 \<and> never_chose_goal env w1)"
    by auto
qed

lemma q_learning_episodes_goal:
  assumes ep: "episodic env"
  shows "q_learning_episodes env alpha gamma eps n history w = Some (Inr (history', w')) \<Longrightarrow>
     goal_untouched env w \<Longrightarrow> never_chose_goal env w \<Longrightarrow>
     goal_untouched env w' \<and> never_chose_goal env w' \<and>
     (n = 0 \<or> goal_pos env \<in> dom (map_of (q_table w')))"
proof (induction n arbitrary: history w)
  case 0
  then show ?case by simp
next
  case (Suc n)
  obtain x where e: "q_learning_episode env alpha gamma eps (start_pos env) 0 w = Some x"
    using Suc.prems(1) by (cases "q_learning_episode env alpha gamma eps (start_pos env) 0 w") simp_all
  obtain y where x: "x = Inr y" using Suc.prems(1) e by (cases x) simp_all
  obtain tot1 w1 where y: "y = (tot1, w1)" by (cases y)
  from Suc.prems(1) e x y
  have rest: "q_learning_episodes env alpha gamma eps n (history @ [tot1]) w1 = Some (Inr (history', w'))"
    by simp
  from q_learning_episode_goal [OF ep e [unfolded x y] Suc.prems(2,3)]
  have gu1: "goal_untouched env w1" and nc1: "never_chose_goal env w1"
    and dm1: "goal_pos env \<in> dom (map_of (q_table w1))" by simp_all
  from Suc.IH [OF rest gu1 nc1] have gu': "goal_untouched env w'" and nc': "never_chose_goal env w'"
    and dm': "n = 0 \<or> goal_pos env \<in> dom (map_of (q_table w'))" by simp_all
  have "goal_pos env \<in> dom (map_of (q_table w'))"
  proof (cases n)
    case 0
    with rest have "w' = w1" by simp
    with dm1 show ?thesis by simp
  next
    case (Suc m)
    with dm' show ?thesis by simp
  qed
  with gu' nc' show ?case by simp
qed

lemma q_learning_goal:
  assumes ep: "episodic env"
    and run: "q_learning env episodes alpha gamma eps g = Some (Inr (w, policy, history))"
  shows "goal_untouched env w" and "never_chose_goal env w"
    and "episodes = 0 \<or> goal_pos env \<in> dom (map_of (q_table w))"
    and "derive_policy (q_table w) = Inr policy"
proof -
  from finish_inv [OF run [unfolded q_learning_def]]
  have r: "q_learning_episodes env alpha gamma eps episodes [] (fresh g) = Some (Inr (history, w))"
    and dp: "derive_policy (q_table w) = Inr policy" by simp_all
  from fresh_safe [of env g] have "goal_untouched env (fresh g)" "never_chose_goal env (fresh g)"
    by (simp_all add: nstep_safe_def)
  from q_learning_episodes_goal [OF ep r this]
  show "goal_untouched env w" and "never_chose_goal env w"
    and "episodes = 0 \<or> goal_pos env \<in> dom (map_of (q_table w))" by simp_all
  show "derive_policy (q_table w) = Inr policy" by (rule dp)
qed

subsection \<open>Expected SARSA\<close>

lemma expected_sarsa_episode_goal:
  assumes ep: "episodic env"
    and run: "expected_sarsa_episode env alpha gamma eps (start_pos env) 0 w = Some (Inr (tot', w'))"
    and gu: "goal_untouched env w" and nc: "never_chose_goal env w"
  shows "goal_untouched env w' \<and> never_chose_goal env w' \<and>
         goal_pos env \<in> dom (map_of (q_table w'))"
proof (rule expected_sarsa_episode_rule [OF run, where
      I = "\<lambda>state (tot::real) w1. state \<noteq> goal_pos env \<and> goal_untouched env w1 \<and>
            never_chose_goal env w1" and
      Q = "\<lambda>(tot::real) w1. goal_untouched env w1 \<and> never_chose_goal env w1 \<and>
            goal_pos env \<in> dom (map_of (q_table w1))"])
  from ep gu nc show "start_pos env \<noteq> goal_pos env \<and> goal_untouched env w \<and>
      never_chose_goal env w"
    by (simp add: episodic_def)
next
  fix state tot w0 ns tot1 d w1
  assume inv: "state \<noteq> goal_pos env \<and> goal_untouched env w0 \<and> never_chose_goal env w0"
    and body: "expected_sarsa_step env alpha gamma eps state tot w0 = Inr (ns, tot1, d, w1)"
  from inv have ng: "state \<noteq> goal_pos env" and gu0: "goal_untouched env w0"
    and nc0: "never_chose_goal env w0" by simp_all
  note f = expected_sarsa_step_goal [OF ep ng body]
  from f(1) f(2) [OF gu0] f(3) [OF nc0] f(4)
  show "(d \<longrightarrow> goal_untouched env w1 \<and> never_chose_goal env w1 \<and>
            goal_pos env \<in> dom (map_of (q_table w1))) \<and>
        (\<not> d \<longrightarrow> ns \<noteq> goal_pos env \<and> goal_untouched env w1 \<and> never_chose_goal env w1)"
    by auto
qed

lemma expected_sarsa_episodes_goal:
  assumes ep: "episodic env"
  shows "expected_sarsa_episodes env alpha gamma eps n history w = Some (Inr (history', w')) \<Longrightarrow>
     goal_untouched env w \<Longrightarrow> never_chose_goal env w \<Longrightarrow>
     goal_untouched env w' \<and> never_chose_goal env w' \<and>
     (n = 0 \<or> goal_pos env \<in> dom (map_of (q_table w')))"
proof (induction n arbitrary: history w)
  case 0
  then show ?case by simp
next
  case (Suc n)
  obtain x where e: "expected_sarsa_episode env alpha gamma eps (start_pos env) 0 w = Some x"
    using Suc.prems(1)
    by (cases "expected_sarsa_episode env alpha gamma eps (start_pos env) 0 w") simp_all
  obtain y where x: "x = Inr y" using Suc.prems(1) e by (cases x) simp_all
  obtain tot1 w1 where y: "y = (tot1, w1)" by (cases y)
  from Suc.prems(1) e x y
  have rest: "expected_sarsa_episodes env alpha gamma eps n (history @ [tot1]) w1 =
      Some (Inr (history', w'))"
    by simp
  from expected_sarsa_episode_goal [OF ep e [unfolded x y] Suc.prems(2,3)]
  have gu1: "goal_untouched env w1" and nc1: "never_chose_goal env w1"
    and dm1: "goal_pos env \<in> dom (map_of (q_table w1))" by simp_all
  from Suc.IH [OF rest gu1 nc1] have gu': "goal_untouched env w'" and nc': "never_chose_goal env w'"
    and dm': "n = 0 \<or> goal_pos env \<in> dom (map_of (q_table w'))" by simp_all
  have "goal_pos env \<in> dom (map_of (q_table w'))"
  proof (cases n)
    case 0
    with rest have "w' = w1" by simp
    with dm1 show ?thesis by simp
  next
    case (Suc m)
    with dm' show ?thesis by simp
  qed
  with gu' nc' show ?case by simp
qed

lemma expected_sarsa_goal:
  assumes ep: "episodic env"
    and run: "expected_sarsa env episodes alpha gamma eps g = Some (Inr (w, policy, history))"
  shows "goal_untouched env w" and "never_chose_goal env w"
    and "episodes = 0 \<or> goal_pos env \<in> dom (map_of (q_table w))"
    and "derive_policy (q_table w) = Inr policy"
proof -
  from finish_inv [OF run [unfolded expected_sarsa_def]]
  have r: "expected_sarsa_episodes env alpha gamma eps episodes [] (fresh g) =
      Some (Inr (history, w))"
    and dp: "derive_policy (q_table w) = Inr policy" by simp_all
  from fresh_safe [of env g] have "goal_untouched env (fresh g)" "never_chose_goal env (fresh g)"
    by (simp_all add: nstep_safe_def)
  from expected_sarsa_episodes_goal [OF ep r this]
  show "goal_untouched env w" and "never_chose_goal env w"
    and "episodes = 0 \<or> goal_pos env \<in> dom (map_of (q_table w))" by simp_all
  show "derive_policy (q_table w) = Inr policy" by (rule dp)
qed

subsection \<open>SARSA\<close>

lemma sarsa_loop_goal:
  assumes ep: "episodic env"
    and run: "sarsa_loop env alpha gamma eps state a tot w = Some (Inr (tot', w'))"
    and ng: "state \<noteq> goal_pos env" and gu: "goal_untouched env w"
  shows "goal_untouched env w' \<and> goal_pos env \<in> dom (map_of (q_table w')) \<and>
         chose_goal_count env w' = Suc (chose_goal_count env w)"
proof (rule sarsa_loop_rule [OF run, where
      I = "\<lambda>state (a::action) (tot::real) w1. state \<noteq> goal_pos env \<and> goal_untouched env w1 \<and>
            chose_goal_count env w1 = chose_goal_count env w" and
      Q = "\<lambda>(tot::real) w1. goal_untouched env w1 \<and>
            goal_pos env \<in> dom (map_of (q_table w1)) \<and>
            chose_goal_count env w1 = Suc (chose_goal_count env w)"])
  from ng gu show "state \<noteq> goal_pos env \<and> goal_untouched env w \<and>
      chose_goal_count env w = chose_goal_count env w" by simp
next
  fix state a tot w0 ns na tot1 d w1
  assume inv: "state \<noteq> goal_pos env \<and> goal_untouched env w0 \<and>
            chose_goal_count env w0 = chose_goal_count env w"
    and body: "sarsa_step env alpha gamma eps state a tot w0 = Inr (ns, na, tot1, d, w1)"
  from inv have ng0: "state \<noteq> goal_pos env" and gu0: "goal_untouched env w0"
    and c0: "chose_goal_count env w0 = chose_goal_count env w" by simp_all
  note f = sarsa_step_goal [OF ep ng0 body]
  from f(3) obtain x where t: "trace w1 = trace w0 @ [Chose ns, Wrote state a x]" ..
  from t c0 have c1: "chose_goal_count env w1 =
      chose_goal_count env w + (if ns = goal_pos env then 1 else 0)"
    by (simp add: chose_goal_count_def)
  from f(1) f(2) [OF gu0] f(4) c1
  show "(d \<longrightarrow> goal_untouched env w1 \<and> goal_pos env \<in> dom (map_of (q_table w1)) \<and>
            chose_goal_count env w1 = Suc (chose_goal_count env w)) \<and>
        (\<not> d \<longrightarrow> ns \<noteq> goal_pos env \<and> goal_untouched env w1 \<and>
            chose_goal_count env w1 = chose_goal_count env w)"
    by auto
qed

lemma sarsa_episode_goal:
  assumes ep: "episodic env"
    and run: "sarsa_episode env alpha gamma eps w = Some (Inr (tot', w'))"
    and gu: "goal_untouched env w"
  shows "goal_untouched env w' \<and> goal_pos env \<in> dom (map_of (q_table w')) \<and>
         chose_goal_count env w' = Suc (chose_goal_count env w)"
proof -
  obtain c where ch: "choose_action_e_greedy env w (start_pos env) (action_keys env) eps = Inr c"
    using run by (cases "choose_action_e_greedy env w (start_pos env) (action_keys env) eps")
      (simp_all add: sarsa_episode_def)
  obtain a w1 where c: "c = (a, w1)" by (cases c)
  from run ch c have lp: "sarsa_loop env alpha gamma eps (start_pos env) a 0 w1 = Some (Inr (tot', w'))"
    by (simp add: sarsa_episode_def)
  from ep have sg: "start_pos env \<noteq> goal_pos env" by (simp add: episodic_def)
  from goal_untouched_choose [OF ch [unfolded c] gu] have gu1: "goal_untouched env w1" .
  from choose_view(2) [OF ch [unfolded c]] sg
  have "chose_goal_count env w1 = chose_goal_count env w"
    by (simp add: chose_goal_count_def)
  with sarsa_loop_goal [OF ep lp sg gu1] show ?thesis by simp
qed

lemma sarsa_episodes_goal:
  assumes ep: "episodic env"
  shows "sarsa_episodes env alpha gamma eps n history w = Some (Inr (history', w')) \<Longrightarrow>
     goal_untouched env w \<Longrightarrow>
     goal_untouched env w' \<and> chose_goal_count env w' = chose_goal_count env w + n \<and>
     (n = 0 \<or> goal_pos env \<in> dom (map_of (q_table w')))"
proof (induction n arbitrary: history w)
  case 0
  then show ?case by simp
next
  case (Suc n)
  obtain x where e: "sarsa_episode env alpha gamma eps w = Some x"
    using Suc.prems(1) by (cases "sarsa_episode env alpha gamma eps w") simp_all
  obtain y where x: "x = Inr y" using Suc.prems(1) e by (cases x) simp_all
  obtain tot1 w1 where y: "y = (tot1, w1)" by (cases y)
  from Suc.prems(1) e x y
  have rest: "sarsa_episodes env alpha gamma eps n (history @ [tot1]) w1 = Some (Inr (history', w'))"
    by simp
  from sarsa_episode_goal [OF ep e [unfolded x y] Suc.prems(2)]
  have gu1: "goal_untouched env w1" and dm1: "goal_pos env \<in> dom (map_of (q_table w1))"
    and c1: "chose_goal_count env w1 = Suc (chose_goal_count env w)" by simp_all
  from Suc.IH [OF rest gu1] have gu': "goal_untouched env w'"
    and c': "chose_goal_count env w' = chose_goal_count env w1 + n"
    and dm': "n = 0 \<or> goal_pos env \<in> dom (map_of (q_table w'))" by simp_all
  have "goal_pos env \<in> dom (map_of (q_table w'))"
  proof (cases n)
    case 0
    with rest have "w' = w1" by simp
    with dm1 show ?thesis by simp
  next
    case (Suc m)
    with dm' show ?thesis by simp
  qed
  with gu' c' c1 show ?case by simp
qed

lemma sarsa_goal:
  assumes ep: "episodic env"
    and run: "sarsa env episodes alpha gamma eps g = Some (Inr (w, policy, history))"
  shows "goal_untouched env w" and "chose_goal_count env w = episodes"
    and "episodes = 0 \<or> goal_pos env \<in> dom (map_of (q_table w))"
    and "derive_policy (q_table w) = Inr policy"
proof -
  from finish_inv [OF run [unfolded sarsa_def]]
  have r: "sarsa_episodes env alpha gamma eps episodes [] (fresh g) = Some (Inr (history, w))"
    and dp: "derive_policy (q_table w) = Inr policy" by simp_all
  from fresh_safe [of env g] have gu: "goal_untouched env (fresh g)"
    by (simp add: nstep_safe_def)
  have "chose_goal_count env (fresh g) = 0" by (simp add: chose_goal_count_def fresh_def)
  with sarsa_episodes_goal [OF ep r gu]
  show "goal_untouched env w" and "chose_goal_count env w = episodes"
    and "episodes = 0 \<or> goal_pos env \<in> dom (map_of (q_table w))" by simp_all
  show "derive_policy (q_table w) = Inr policy" by (rule dp)
qed

subsection \<open>N-step SARSA\<close>

lemma n_step_episode_safe:
  assumes ep: "episodic env"
    and run: "n_step_episode env n alpha gamma eps cap w = Inr (tot, traj', w')"
    and safe: "nstep_safe env w"
  shows "nstep_safe env w'"
proof -
  from run obtain a w1 state act d traj k w2 where
    ch: "choose_action_e_greedy env w (start_pos env) (action_keys env) eps = Inr (a, w1)" and
    lp: "n_step_loop env n alpha gamma eps cap (start_pos env) (Some a) 0 False [] 0 w1 =
       Inr (state, act, tot, d, traj, k, w2)" and
    dr: "n_step_drain env alpha gamma traj w2 = Inr (traj', w')"
    by (rule n_step_episode_inv)
  from ep have sg: "start_pos env \<noteq> goal_pos env" by (simp add: episodic_def)
  from nstep_safe_choose [OF ch sg safe] have s1: "nstep_safe env w1" .
  from n_step_loop_safe [OF ep lp sg s1] have s2: "nstep_safe env w2"
    and tr: "\<forall>e \<in> set traj. fst e \<noteq> goal_pos env" by simp_all
  from n_step_drain_safe [OF dr tr s2] show ?thesis .
qed

lemma n_step_episodes_safe:
  assumes ep: "episodic env"
  shows "n_step_episodes env n alpha gamma eps cap m history w = Inr (history', w') \<Longrightarrow>
     nstep_safe env w \<Longrightarrow> nstep_safe env w'"
proof (induction m arbitrary: history w)
  case 0
  then show ?case by simp
next
  case (Suc m)
  obtain y where e: "n_step_episode env n alpha gamma eps cap w = Inr y"
    using Suc.prems(1) by (cases "n_step_episode env n alpha gamma eps cap w") simp_all
  obtain tot1 t1 w1 where y: "y = (tot1, t1, w1)" by (cases y)
  from Suc.prems(1) e y
  have rest: "n_step_episodes env n alpha gamma eps cap m (history @ [tot1]) w1 = Inr (history', w')"
    by simp
  from n_step_episode_safe [OF ep e [unfolded y] Suc.prems(2)] have "nstep_safe env w1" .
  from Suc.IH [OF rest this] show ?case .
qed

lemma n_step_sarsa_goal:
  assumes ep: "episodic env"
    and run: "n_step_sarsa env n episodes alpha gamma eps cap g = Some (Inr (w, policy, history))"
  shows "nstep_safe env w" and "derive_policy (q_table w) = Inr policy"
proof -
  from finish_inv [OF run [unfolded n_step_sarsa_def]]
  have r: "n_step_episodes env n alpha gamma eps cap episodes [] (fresh g) = Inr (history, w)"
    and dp: "derive_policy (q_table w) = Inr policy" by simp_all
  from n_step_episodes_safe [OF ep r fresh_safe] show "nstep_safe env w" .
  show "derive_policy (q_table w) = Inr policy" by (rule dp)
qed

subsection \<open>The cliff-walk environment is episodic\<close>

lemma maze_step_episodic:
  assumes "s \<noteq> cw_goal_pos e" "maze_step e s a = Inr (ns, r, d)"
  shows "d \<longleftrightarrow> ns = cw_goal_pos e"
proof -
  from assms obtain move where "actions e a = Some move"
    by (cases "actions e a") (simp_all add: maze_step_def)
  with assms show ?thesis
    by (simp add: maze_step_def Let_def split: if_splits)
qed

lemma episodic_CliffWalkEnv:
  assumes "cw_start_pos e \<noteq> cw_goal_pos e"
  shows "episodic (CliffWalkEnv e sts keys)"
  unfolding episodic_def
proof (intro conjI allI impI)
  show "start_pos (CliffWalkEnv e sts keys) \<noteq> goal_pos (CliffWalkEnv e sts keys)"
    using assms by (simp add: CliffWalkEnv_def)
next
  fix s a ns r d
  assume ng: "s \<noteq> goal_pos (CliffWalkEnv e sts keys)"
    and st: "step (CliffWalkEnv e sts keys) s a = Inr (ns, r, d)"
  from ng have ng': "s \<noteq> cw_goal_pos e" by (simp add: CliffWalkEnv_def)
  from st have cs: "cliff_step e s a = Inr (ns, r, d)" by (simp add: CliffWalkEnv_def)
  from cs ng' obtain move where mv: "actions e a = Some move"
    by (cases "actions e a") (simp_all add: cliff_step_def)
  let ?p = "(fst s + fst move, snd s + snd move)"
  have "d \<longleftrightarrow> ns = cw_goal_pos e"
  proof (cases "in_bounds e ?p \<and> cell e ?p = 4")
    case True
    with cs ng' mv have "ns = cw_start_pos e \<and> \<not> d" by (simp add: cliff_step_def Let_def)
    with assms show ?thesis by simp
  next
    case False
    with cs ng' mv have "maze_step e s a = Inr (ns, r, d)" by (simp add: cliff_step_def Let_def)
    from maze_step_episodic [OF ng' this] show ?thesis .
  qed
  then show "d \<longleftrightarrow> ns = goal_pos (CliffWalkEnv e sts keys)" by (simp add: CliffWalkEnv_def)
qed

section \<open>Runs on the corridor\<close>

lemmas td_simps = q_row_def q_read_def q_write_def choose_action_e_greedy_def random_uniform_def
  random_choice_def py_max_def default_row_def fresh_def rng1_def finish_def

lemmas nstep_simps = n_step_body_def n_step_next_action_def n_step_update_def n_step_return_def

lemma corridor_episodic: "episodic corridor_env"
  unfolding corridor_env_def by (rule episodic_CliffWalkEnv) (simp add: corridor_def)

lemma corridor_goal: "goal_pos corridor_env = (0, 2)" "action_keys corridor_env = [''W'', ''E'']"
  "start_pos corridor_env = (0, 0)"
  by (simp_all add: corridor_env_def CliffWalkEnv_def corridor_def)

lemma corridor_last_step: "step corridor_env (0, 1) ''E'' = Inr ((0, 2), 0, True)"
  by (simp add: corridor_simps)

lemma sarsa_corridor:
  "sarsa corridor_env 1 (1/2) 1 0 rng1 =
     Some (Inr (\<lparr>q_table = [((0, 0), [(''W'', 0), (''E'', - (1/2))]),
                             ((0, 1), [(''W'', 0), (''E'', 0)]),
                             ((0, 2), [(''W'', 0), (''E'', 0)])],
                  rand = rng1\<lparr>drawn := 6\<rparr>,
                  trace = [Chose (0, 0), Chose (0, 1), Wrote (0, 0) ''E'' (- (1/2)),
                           Chose (0, 2), Wrote (0, 1) ''E'' 0]\<rparr>,
                [((0, 0), ''W''), ((0, 1), ''W''), ((0, 2), ''W'')], [- 1]))"
  apply (simp add: sarsa_def sarsa_episode_def corridor_simps td_simps)
  apply (subst sarsa_loop.simps, simp add: sarsa_step_def corridor_simps td_simps)
  apply (subst sarsa_loop.simps, simp add: sarsa_step_def corridor_simps td_simps)
  done

lemma q_learning_corridor:
  "q_learning corridor_env 1 (1/2) 1 1 rng1 =
     Some (Inr (\<lparr>q_table = [((0, 0), [(''W'', 0), (''E'', - (1/2))]),
                             ((0, 1), [(''W'', 0), (''E'', 0)]),
                             ((0, 2), [(''W'', 0), (''E'', 0)])],
                  rand = rng1\<lparr>drawn := 4\<rparr>,
                  trace = [Chose (0, 0), Wrote (0, 0) ''E'' (- (1/2)),
                           Chose (0, 1), Wrote (0, 1) ''E'' 0]\<rparr>,
                [((0, 0), ''W''), ((0, 1), ''W''), ((0, 2), ''W'')], [- 1]))"
  apply (simp add: q_learning_def corridor_simps td_simps)
  apply (subst q_learning_episode.simps, simp add: q_learning_step_def corridor_simps td_simps)
  apply (subst q_learning_episode.simps, simp add: q_learning_step_def corridor_simps td_simps)
  done

lemma n_step_sarsa_corridor:
  "n_step_sarsa corridor_env 3 1 (1/2) 1 1 100 rng1 =
     Some (Inr (\<lparr>q_table = [((0, 0), [(''W'', 0), (''E'', - (1/2))]),
                             ((0, 1), [(''W'', 0), (''E'', 0)])],
                  rand = rng1\<lparr>drawn := 4\<rparr>,
                  trace = [Chose (0, 0), Stored (0, 0) ''E'' (- 1), Chose (0, 1),
                           Stored (0, 1) ''E'' 0,
                           Wrote (0, 0) ''E'' (- (1/2)), Wrote (0, 1) ''E'' 0]\<rparr>,
                [((0, 0), ''W''), ((0, 1), ''W'')], [- 1]))"
  apply (simp add: n_step_sarsa_def n_step_episode_def corridor_simps td_simps)
  apply (subst n_step_loop.simps, simp add: corridor_simps td_simps nstep_simps)
  apply (subst n_step_loop.simps, simp add: corridor_simps td_simps nstep_simps)
  apply (subst n_step_loop.simps, simp add: corridor_simps td_simps nstep_simps)
  done




section \<open>The goal's row is never written\<close>

text \<open>
  C9. In an episodic environment the learner state a TD learner returns has never been
  assigned to at the goal, and the goal's row, when the table has one, holds zero for
  every action. This holds throughout training: every pass through a loop body started
  at a state other than the goal keeps the goal's row as a first lookup creates it and
  assigns only to the row of the state the step was taken from; for the n-step learner
  the buffer holds only states other than the goal, in the main loop and in the drain.
\<close>

theorem goal_row_never_written:
  assumes ep: "episodic env"
  shows
  "(q_learning env episodes alpha gamma epsilon g = Some (Inr (w, policy, history)) \<longrightarrow>
      goal_row_zero env w \<and> never_wrote_goal env w) \<and>
   (sarsa env episodes alpha gamma epsilon g = Some (Inr (w, policy, history)) \<longrightarrow>
      goal_row_zero env w \<and> never_wrote_goal env w) \<and>
   (expected_sarsa env episodes alpha gamma epsilon g = Some (Inr (w, policy, history)) \<longrightarrow>
      goal_row_zero env w \<and> never_wrote_goal env w) \<and>
   (n_step_sarsa env n_steps episodes alpha gamma epsilon max_steps g =
      Some (Inr (w, policy, history)) \<longrightarrow>
      goal_row_zero env w \<and> never_wrote_goal env w) \<and>
   (state \<noteq> goal_pos env \<and> goal_untouched env w0 \<longrightarrow>
      (q_learning_step env alpha gamma epsilon state tot w0 = Inr (ns, tot', d, w1) \<longrightarrow>
         goal_untouched env w1) \<and>
      (sarsa_step env alpha gamma epsilon state a tot w0 = Inr (ns, na, tot', d, w1) \<longrightarrow>
         goal_untouched env w1) \<and>
      (expected_sarsa_step env alpha gamma epsilon state tot w0 = Inr (ns, tot', d, w1) \<longrightarrow>
         goal_untouched env w1)) \<and>
   (state \<noteq> goal_pos env \<and> nstep_safe env w0 \<and> (\<forall>e \<in> set traj. fst e \<noteq> goal_pos env) \<longrightarrow>
      (n_step_body env n_steps alpha gamma epsilon state act tot traj w0 =
         Inr (ns, nact, tot', d, traj1, w1) \<longrightarrow>
         nstep_safe env w1 \<and> (\<forall>e \<in> set traj1. fst e \<noteq> goal_pos env)) \<and>
      (n_step_drain env alpha gamma traj w0 = Inr (traj1, w1) \<longrightarrow> nstep_safe env w1))"
proof (intro conjI impI)
  assume "q_learning env episodes alpha gamma epsilon g = Some (Inr (w, policy, history))"
  from q_learning_goal(1) [OF ep this] have gu: "goal_untouched env w" .
  from goal_untouched_zero [OF gu] show "goal_row_zero env w" .
  from gu show "never_wrote_goal env w" by (simp add: goal_untouched_def)
next
  assume "sarsa env episodes alpha gamma epsilon g = Some (Inr (w, policy, history))"
  from sarsa_goal(1) [OF ep this] have gu: "goal_untouched env w" .
  from goal_untouched_zero [OF gu] show "goal_row_zero env w" .
  from gu show "never_wrote_goal env w" by (simp add: goal_untouched_def)
next
  assume "expected_sarsa env episodes alpha gamma epsilon g = Some (Inr (w, policy, history))"
  from expected_sarsa_goal(1) [OF ep this] have gu: "goal_untouched env w" .
  from goal_untouched_zero [OF gu] show "goal_row_zero env w" .
  from gu show "never_wrote_goal env w" by (simp add: goal_untouched_def)
next
  assume "n_step_sarsa env n_steps episodes alpha gamma epsilon max_steps g =
      Some (Inr (w, policy, history))"
  from n_step_sarsa_goal(1) [OF ep this] have gu: "goal_untouched env w"
    by (simp add: nstep_safe_def)
  from goal_untouched_zero [OF gu] show "goal_row_zero env w" .
  from gu show "never_wrote_goal env w" by (simp add: goal_untouched_def)
next
  assume h: "state \<noteq> goal_pos env \<and> goal_untouched env w0"
    and b: "q_learning_step env alpha gamma epsilon state tot w0 = Inr (ns, tot', d, w1)"
  from h have ng: "state \<noteq> goal_pos env" and gu: "goal_untouched env w0" by simp_all
  from gu show "goal_untouched env w1" by (rule q_learning_step_goal(2) [OF ep ng b])
next
  assume h: "state \<noteq> goal_pos env \<and> goal_untouched env w0"
    and b: "sarsa_step env alpha gamma epsilon state a tot w0 = Inr (ns, na, tot', d, w1)"
  from h have ng: "state \<noteq> goal_pos env" and gu: "goal_untouched env w0" by simp_all
  from gu show "goal_untouched env w1" by (rule sarsa_step_goal(2) [OF ep ng b])
next
  assume h: "state \<noteq> goal_pos env \<and> goal_untouched env w0"
    and b: "expected_sarsa_step env alpha gamma epsilon state tot w0 = Inr (ns, tot', d, w1)"
  from h have ng: "state \<noteq> goal_pos env" and gu: "goal_untouched env w0" by simp_all
  from gu show "goal_untouched env w1" by (rule expected_sarsa_step_goal(2) [OF ep ng b])
next
  assume h: "state \<noteq> goal_pos env \<and> nstep_safe env w0 \<and> (\<forall>e \<in> set traj. fst e \<noteq> goal_pos env)"
    and b: "n_step_body env n_steps alpha gamma epsilon state act tot traj w0 =
         Inr (ns, nact, tot', d, traj1, w1)"
  from h have ng: "state \<noteq> goal_pos env" and safe: "nstep_safe env w0"
    and tr: "\<forall>e \<in> set traj. fst e \<noteq> goal_pos env" by simp_all
  from n_step_body_goal(2) [OF ep ng tr safe b] show "nstep_safe env w1" .
  from n_step_body_goal(3) [OF ep ng tr safe b] show "\<forall>e \<in> set traj1. fst e \<noteq> goal_pos env" .
next
  assume h: "state \<noteq> goal_pos env \<and> nstep_safe env w0 \<and> (\<forall>e \<in> set traj. fst e \<noteq> goal_pos env)"
    and b: "n_step_drain env alpha gamma traj w0 = Inr (traj1, w1)"
  from h have safe: "nstep_safe env w0" and tr: "\<forall>e \<in> set traj. fst e \<noteq> goal_pos env"
    by simp_all
  from b tr safe show "nstep_safe env w1" by (rule n_step_drain_safe)
qed


theorem goal_row_never_written_witness:
  "episodic corridor_env \<and>
   (\<exists>w policy history.
      sarsa corridor_env 1 (1/2) 1 0 rng1 = Some (Inr (w, policy, history)) \<and>
      map_of (q_table w) (goal_pos corridor_env) = Some [(''W'', 0), (''E'', 0)] \<and>
      goal_row_zero corridor_env w \<and> never_wrote_goal corridor_env w)"
proof -
  let ?w = "\<lparr>q_table = [((0, 0), [(''W'', 0), (''E'', - (1/2))]),
                        ((0, 1), [(''W'', 0), (''E'', 0)]),
                        ((0, 2), [(''W'', 0), (''E'', 0)])],
             rand = rng1\<lparr>drawn := 6\<rparr>,
             trace = [Chose (0, 0), Chose (0, 1), Wrote (0, 0) ''E'' (- (1/2)),
                      Chose (0, 2), Wrote (0, 1) ''E'' 0]\<rparr>"
  let ?p = "[((0, 0), ''W''), ((0, 1), ''W''), ((0, 2), ''W'')]"
  have run: "sarsa corridor_env 1 (1/2) 1 0 rng1 = Some (Inr (?w, ?p, [- 1]))"
    by (rule sarsa_corridor)
  from goal_row_never_written [OF corridor_episodic, THEN conjunct2, THEN conjunct1, THEN mp, OF run]
  have z: "goal_row_zero corridor_env ?w \<and> never_wrote_goal corridor_env ?w" .
  have row: "map_of (q_table ?w) (goal_pos corridor_env) = Some [(''W'', 0), (''E'', 0)]"
    by (simp add: corridor_goal)
  have "sarsa corridor_env 1 (1/2) 1 0 rng1 = Some (Inr (?w, ?p, [- 1])) \<and>
      map_of (q_table ?w) (goal_pos corridor_env) = Some [(''W'', 0), (''E'', 0)] \<and>
      goal_row_zero corridor_env ?w \<and> never_wrote_goal corridor_env ?w"
    using run row z by (intro conjI) simp_all
  then have "\<exists>w policy history.
      sarsa corridor_env 1 (1/2) 1 0 rng1 = Some (Inr (w, policy, history)) \<and>
      map_of (q_table w) (goal_pos corridor_env) = Some [(''W'', 0), (''E'', 0)] \<and>
      goal_row_zero corridor_env w \<and> never_wrote_goal corridor_env w"
    by (intro exI)
  with corridor_episodic show ?thesis by (rule conjI)
qed

section \<open>Action selection at the goal\<close>

text \<open>
  C4, as the code has it. In an episodic environment \<^verbatim>\<open>q_learning\<close>,
  \<^verbatim>\<open>expected_sarsa\<close> and \<^verbatim>\<open>n_step_sarsa\<close> never hand the goal to
  \<^verbatim>\<open>choose_action_e_greedy\<close>. \<^verbatim>\<open>sarsa\<close> chooses the next action for the next state on
  every pass, the terminal one included (line 117), so it hands the goal over exactly
  once per episode.
\<close>

theorem goal_chosen_only_by_sarsa:
  assumes ep: "episodic env"
  shows
  "(q_learning env episodes alpha gamma epsilon g = Some (Inr (w, policy, history)) \<longrightarrow>
      never_chose_goal env w) \<and>
   (expected_sarsa env episodes alpha gamma epsilon g = Some (Inr (w, policy, history)) \<longrightarrow>
      never_chose_goal env w) \<and>
   (n_step_sarsa env n_steps episodes alpha gamma epsilon max_steps g =
      Some (Inr (w, policy, history)) \<longrightarrow> never_chose_goal env w) \<and>
   (sarsa env episodes alpha gamma epsilon g = Some (Inr (w, policy, history)) \<longrightarrow>
      chose_goal_count env w = episodes)"
proof (intro conjI impI)
  assume "q_learning env episodes alpha gamma epsilon g = Some (Inr (w, policy, history))"
  from q_learning_goal(2) [OF ep this] show "never_chose_goal env w" .
next
  assume "expected_sarsa env episodes alpha gamma epsilon g = Some (Inr (w, policy, history))"
  from expected_sarsa_goal(2) [OF ep this] show "never_chose_goal env w" .
next
  assume "n_step_sarsa env n_steps episodes alpha gamma epsilon max_steps g =
      Some (Inr (w, policy, history))"
  from n_step_sarsa_goal(1) [OF ep this] show "never_chose_goal env w"
    by (simp add: nstep_safe_def)
next
  assume "sarsa env episodes alpha gamma epsilon g = Some (Inr (w, policy, history))"
  from sarsa_goal(2) [OF ep this] show "chose_goal_count env w = episodes" .
qed

theorem goal_chosen_only_by_sarsa_witness:
  "episodic corridor_env \<and>
   (\<exists>w policy history.
      q_learning corridor_env 1 (1/2) 1 1 rng1 = Some (Inr (w, policy, history)) \<and>
      trace w = [Chose (0, 0), Wrote (0, 0) ''E'' (- (1/2)), Chose (0, 1), Wrote (0, 1) ''E'' 0] \<and>
      never_chose_goal corridor_env w) \<and>
   (\<exists>w policy history.
      sarsa corridor_env 1 (1/2) 1 0 rng1 = Some (Inr (w, policy, history)) \<and>
      chose_goal_count corridor_env w = 1)"
proof -
  let ?p = "[((0, 0), ''W''), ((0, 1), ''W''), ((0, 2), ''W'')]"
  let ?q = "[((0, 0), [(''W'', 0), (''E'', - (1/2))]),
             ((0, 1), [(''W'', 0), (''E'', 0)]),
             ((0, 2), [(''W'', 0), (''E'', 0)])]"
  let ?wq = "\<lparr>q_table = ?q, rand = rng1\<lparr>drawn := 4\<rparr>,
              trace = [Chose (0, 0), Wrote (0, 0) ''E'' (- (1/2)),
                       Chose (0, 1), Wrote (0, 1) ''E'' 0]\<rparr>"
  let ?ws = "\<lparr>q_table = ?q, rand = rng1\<lparr>drawn := 6\<rparr>,
              trace = [Chose (0, 0), Chose (0, 1), Wrote (0, 0) ''E'' (- (1/2)),
                       Chose (0, 2), Wrote (0, 1) ''E'' 0]\<rparr>"
  have runq: "q_learning corridor_env 1 (1/2) 1 1 rng1 = Some (Inr (?wq, ?p, [- 1]))"
    by (rule q_learning_corridor)
  have runs: "sarsa corridor_env 1 (1/2) 1 0 rng1 = Some (Inr (?ws, ?p, [- 1]))"
    by (rule sarsa_corridor)
  note inst = goal_chosen_only_by_sarsa [OF corridor_episodic]
  from inst [THEN conjunct1, THEN mp, OF runq] have nq: "never_chose_goal corridor_env ?wq" .
  from inst [THEN conjunct2, THEN conjunct2, THEN conjunct2, THEN mp, OF runs]
  have cs: "chose_goal_count corridor_env ?ws = 1" .
  have "q_learning corridor_env 1 (1/2) 1 1 rng1 = Some (Inr (?wq, ?p, [- 1])) \<and>
      trace ?wq = [Chose (0, 0), Wrote (0, 0) ''E'' (- (1/2)), Chose (0, 1), Wrote (0, 1) ''E'' 0] \<and>
      never_chose_goal corridor_env ?wq"
    using runq nq by (intro conjI) simp_all
  then have a: "\<exists>w policy history.
      q_learning corridor_env 1 (1/2) 1 1 rng1 = Some (Inr (w, policy, history)) \<and>
      trace w = [Chose (0, 0), Wrote (0, 0) ''E'' (- (1/2)), Chose (0, 1), Wrote (0, 1) ''E'' 0] \<and>
      never_chose_goal corridor_env w"
    by (intro exI)
  have "sarsa corridor_env 1 (1/2) 1 0 rng1 = Some (Inr (?ws, ?p, [- 1])) \<and>
      chose_goal_count corridor_env ?ws = 1"
    using runs cs by (intro conjI)
  then have b: "\<exists>w policy history.
      sarsa corridor_env 1 (1/2) 1 0 rng1 = Some (Inr (w, policy, history)) \<and>
      chose_goal_count corridor_env w = 1"
    by (intro exI)
  from corridor_episodic a b show ?thesis by (intro conjI)
qed

text \<open>
  C4 as stated fails for \<^verbatim>\<open>sarsa\<close>: in its one episode on the corridor the last call of
  \<^verbatim>\<open>choose_action_e_greedy\<close> has the goal \<open>(0, 2)\<close> as its state.
\<close>

theorem sarsa_chooses_at_goal_counterexample:
  "goal_pos corridor_env = (0, 2) \<and>
   sarsa corridor_env 1 (1/2) 1 0 rng1 =
     Some (Inr (\<lparr>q_table = [((0, 0), [(''W'', 0), (''E'', - (1/2))]),
                             ((0, 1), [(''W'', 0), (''E'', 0)]),
                             ((0, 2), [(''W'', 0), (''E'', 0)])],
                  rand = rng1\<lparr>drawn := 6\<rparr>,
                  trace = [Chose (0, 0), Chose (0, 1), Wrote (0, 0) ''E'' (- (1/2)),
                           Chose (0, 2), Wrote (0, 1) ''E'' 0]\<rparr>,
                [((0, 0), ''W''), ((0, 1), ''W''), ((0, 2), ''W'')], [- 1])) \<and>
   \<not> never_chose_goal corridor_env
       \<lparr>q_table = [((0, 0), [(''W'', 0), (''E'', - (1/2))]),
                   ((0, 1), [(''W'', 0), (''E'', 0)]),
                   ((0, 2), [(''W'', 0), (''E'', 0)])],
        rand = rng1\<lparr>drawn := 6\<rparr>,
        trace = [Chose (0, 0), Chose (0, 1), Wrote (0, 0) ''E'' (- (1/2)),
                 Chose (0, 2), Wrote (0, 1) ''E'' 0]\<rparr>"
  using sarsa_corridor by (simp add: never_chose_goal_def corridor_goal)


section \<open>The domain of the returned policy\<close>

lemma finish_policy:
  assumes "finish r = Some (Inr (w, policy, history))"
  shows "map fst policy = map fst (q_table w)"
proof -
  from finish_inv(2) [OF assms] have "derive_policy (q_table w) = Inr policy" .
  from derive_policy_result [OF this] show ?thesis by simp
qed

text \<open>
  C10, as the code has it. The returned policy has one entry per row of the returned
  table, in the table's order, and nothing else. In an episodic environment, after at
  least one episode, the tables of \<^verbatim>\<open>q_learning\<close>, \<^verbatim>\<open>sarsa\<close> and \<^verbatim>\<open>expected_sarsa\<close>
  have a row for the goal, which the policy maps to the first action of
  \<^verbatim>\<open>env.action_keys\<close>. \<^verbatim>\<open>n_step_sarsa\<close> never looks the goal up (it neither chooses an
  action there nor bootstraps from it), so its table has no row for the goal and its
  policy no entry, also when the goal was reached.
\<close>

theorem policy_domain_is_table:
  "(q_learning env episodes alpha gamma epsilon g = Some (Inr (w, policy, history)) \<longrightarrow>
      map fst policy = map fst (q_table w) \<and>
      (episodic env \<and> 0 < episodes \<longrightarrow>
         map_of policy (goal_pos env) = Some (hd (action_keys env)))) \<and>
   (sarsa env episodes alpha gamma epsilon g = Some (Inr (w, policy, history)) \<longrightarrow>
      map fst policy = map fst (q_table w) \<and>
      (episodic env \<and> 0 < episodes \<longrightarrow>
         map_of policy (goal_pos env) = Some (hd (action_keys env)))) \<and>
   (expected_sarsa env episodes alpha gamma epsilon g = Some (Inr (w, policy, history)) \<longrightarrow>
      map fst policy = map fst (q_table w) \<and>
      (episodic env \<and> 0 < episodes \<longrightarrow>
         map_of policy (goal_pos env) = Some (hd (action_keys env)))) \<and>
   (n_step_sarsa env n_steps episodes alpha gamma epsilon max_steps g =
      Some (Inr (w, policy, history)) \<longrightarrow>
      map fst policy = map fst (q_table w) \<and>
      (episodic env \<longrightarrow> map_of policy (goal_pos env) = None))"
proof (intro conjI impI)
  assume run: "q_learning env episodes alpha gamma epsilon g = Some (Inr (w, policy, history))"
  from run show "map fst policy = map fst (q_table w)"
    unfolding q_learning_def by (rule finish_policy)
  assume h: "episodic env \<and> 0 < episodes"
  then have ep: "episodic env" and pos: "0 < episodes" by simp_all
  from q_learning_goal(3) [OF ep run] pos
  have dm: "goal_pos env \<in> dom (map_of (q_table w))" by simp
  from q_learning_goal(4) [OF ep run] q_learning_goal(1) [OF ep run] dm
  show "map_of policy (goal_pos env) = Some (hd (action_keys env))" by (rule goal_policy)
next
  assume run: "sarsa env episodes alpha gamma epsilon g = Some (Inr (w, policy, history))"
  from run show "map fst policy = map fst (q_table w)"
    unfolding sarsa_def by (rule finish_policy)
  assume h: "episodic env \<and> 0 < episodes"
  then have ep: "episodic env" and pos: "0 < episodes" by simp_all
  from sarsa_goal(3) [OF ep run] pos
  have dm: "goal_pos env \<in> dom (map_of (q_table w))" by simp
  from sarsa_goal(4) [OF ep run] sarsa_goal(1) [OF ep run] dm
  show "map_of policy (goal_pos env) = Some (hd (action_keys env))" by (rule goal_policy)
next
  assume run: "expected_sarsa env episodes alpha gamma epsilon g = Some (Inr (w, policy, history))"
  from run show "map fst policy = map fst (q_table w)"
    unfolding expected_sarsa_def by (rule finish_policy)
  assume h: "episodic env \<and> 0 < episodes"
  then have ep: "episodic env" and pos: "0 < episodes" by simp_all
  from expected_sarsa_goal(3) [OF ep run] pos
  have dm: "goal_pos env \<in> dom (map_of (q_table w))" by simp
  from expected_sarsa_goal(4) [OF ep run] expected_sarsa_goal(1) [OF ep run] dm
  show "map_of policy (goal_pos env) = Some (hd (action_keys env))" by (rule goal_policy)
next
  assume run: "n_step_sarsa env n_steps episodes alpha gamma epsilon max_steps g =
      Some (Inr (w, policy, history))"
  from run show "map fst policy = map fst (q_table w)"
    unfolding n_step_sarsa_def by (rule finish_policy)
  assume ep: "episodic env"
  from n_step_sarsa_goal(1) [OF ep run] have "map_of (q_table w) (goal_pos env) = None"
    by (simp add: nstep_safe_def domIff)
  with policy_dom [OF n_step_sarsa_goal(2) [OF ep run], of "goal_pos env"]
  show "map_of policy (goal_pos env) = None" by simp
qed

theorem policy_domain_is_table_witness:
  "episodic corridor_env \<and> hd (action_keys corridor_env) = ''W'' \<and>
   (\<exists>w policy history.
      q_learning corridor_env 1 (1/2) 1 1 rng1 = Some (Inr (w, policy, history)) \<and>
      map fst (q_table w) = [(0, 0), (0, 1), (0, 2)] \<and>
      map fst policy = [(0, 0), (0, 1), (0, 2)] \<and>
      map_of policy (goal_pos corridor_env) = Some ''W'') \<and>
   (\<exists>w policy history.
      n_step_sarsa corridor_env 3 1 (1/2) 1 1 100 rng1 = Some (Inr (w, policy, history)) \<and>
      map fst (q_table w) = [(0, 0), (0, 1)] \<and>
      map fst policy = [(0, 0), (0, 1)] \<and>
      map_of policy (goal_pos corridor_env) = None)"
proof -
  have hd: "hd (action_keys corridor_env) = ''W''" by (simp add: corridor_goal)
  have pos: "0 < (1::nat)" by simp
  note ql = policy_domain_is_table [THEN conjunct1, THEN mp, OF q_learning_corridor]
  note ns = policy_domain_is_table [THEN conjunct2, THEN conjunct2, THEN conjunct2, THEN mp,
      OF n_step_sarsa_corridor]
  from ql [THEN conjunct2, THEN mp, OF conjI [OF corridor_episodic pos]] hd
  have a: "map_of [((0, 0), ''W''), ((0, 1), ''W''), ((0, 2), ''W'')] (goal_pos corridor_env) =
      Some ''W''" by simp
  from ns [THEN conjunct2, THEN mp, OF corridor_episodic]
  have b: "map_of [((0, 0), ''W''), ((0, 1), ''W'')] (goal_pos corridor_env) = None" .
  have "\<exists>w policy history.
      q_learning corridor_env 1 (1/2) 1 1 rng1 = Some (Inr (w, policy, history)) \<and>
      map fst (q_table w) = [(0, 0), (0, 1), (0, 2)] \<and>
      map fst policy = [(0, 0), (0, 1), (0, 2)] \<and>
      map_of policy (goal_pos corridor_env) = Some ''W''"
    by (intro exI conjI, rule q_learning_corridor, simp, simp, rule a)
  moreover have "\<exists>w policy history.
      n_step_sarsa corridor_env 3 1 (1/2) 1 1 100 rng1 = Some (Inr (w, policy, history)) \<and>
      map fst (q_table w) = [(0, 0), (0, 1)] \<and>
      map fst policy = [(0, 0), (0, 1)] \<and>
      map_of policy (goal_pos corridor_env) = None"
    by (intro exI conjI, rule n_step_sarsa_corridor, simp, simp, rule b)
  ultimately show ?thesis using corridor_episodic hd by (intro conjI)
qed

text \<open>
  C10 as stated fails for \<^verbatim>\<open>n_step_sarsa\<close>: its one episode on the corridor reaches the
  goal (the step from \<open>(0, 1)\<close> with \<open>E\<close>, which it stored, is terminal and enters the
  goal \<open>(0, 2)\<close>), and the returned policy has no entry for the goal.
\<close>

theorem n_step_policy_omits_goal_counterexample:
  "n_step_sarsa corridor_env 3 1 (1/2) 1 1 100 rng1 =
     Some (Inr (\<lparr>q_table = [((0, 0), [(''W'', 0), (''E'', - (1/2))]),
                             ((0, 1), [(''W'', 0), (''E'', 0)])],
                  rand = rng1\<lparr>drawn := 4\<rparr>,
                  trace = [Chose (0, 0), Stored (0, 0) ''E'' (- 1), Chose (0, 1),
                           Stored (0, 1) ''E'' 0,
                           Wrote (0, 0) ''E'' (- (1/2)), Wrote (0, 1) ''E'' 0]\<rparr>,
                [((0, 0), ''W''), ((0, 1), ''W'')], [- 1])) \<and>
   step corridor_env (0, 1) ''E'' = Inr (goal_pos corridor_env, 0, True) \<and>
   goal_pos corridor_env = (0, 2) \<and>
   map_of [((0, 0), ''W''), ((0, 1), ''W'')] (goal_pos corridor_env) = None"
  using n_step_sarsa_corridor corridor_last_step by (simp add: corridor_goal)


section \<open>Examples for the n-step learner\<close>



section \<open>One-step SARSA and n-step SARSA with one step\<close>

subsection \<open>One pass of each loop, as lookups see it\<close>

lemma sarsa_step_view:
  assumes "sarsa_step env alpha gamma eps state a tot w = Inr (ns, na, tot', d, w')"
  obtains r old nv where
    "step env state a = Inr (ns, r, d)"
    "map_of (row_of env (q_table w) state) a = Some old"
    "map_of (row_of env (q_table w) ns) na = Some nv"
    "trace w' = trace w @ [Chose ns, Wrote state a (old + alpha * (r + gamma * nv - old))]"
    "row_of env (q_table w') = (row_of env (q_table w))
       (state := dict_set a (old + alpha * (r + gamma * nv - old)) (row_of env (q_table w) state))"
proof -
  from assms obtain r w1 old w2 nv w3 where
    st: "step env state a = Inr (ns, r, d)" and "tot' = tot + r" and
    ch: "choose_action_e_greedy env w ns (action_keys env) eps = Inr (na, w1)" and
    rd: "q_read env w1 state a = Inr (old, w2)" and
    rn: "q_read env w2 ns na = Inr (nv, w3)" and
    w': "w' = q_write env w3 state a (old + alpha * (r + gamma * nv - old))"
    by (rule sarsa_step_inv)
  have v3: "row_of env (q_table w3) = row_of env (q_table w)"
    by (simp only: q_read_view(2) [OF rn] q_read_view(2) [OF rd] choose_view(1) [OF ch])
  have t3: "trace w3 = trace w @ [Chose ns]"
    by (simp only: q_read_view(4) [OF rn] q_read_view(4) [OF rd] choose_view(2) [OF ch])
  show ?thesis
  proof (rule that [of r old nv])
    show "step env state a = Inr (ns, r, d)" by (rule st)
    from q_read_view(1) [OF rd] show "map_of (row_of env (q_table w) state) a = Some old"
      by (simp only: choose_view(1) [OF ch])
    from q_read_view(1) [OF rn] show "map_of (row_of env (q_table w) ns) na = Some nv"
      by (simp only: q_read_view(2) [OF rd] choose_view(1) [OF ch])
    show "trace w' = trace w @ [Chose ns, Wrote state a (old + alpha * (r + gamma * nv - old))]"
      unfolding w' by (simp only: q_write_view(3) t3) simp
    show "row_of env (q_table w') = (row_of env (q_table w))
       (state := dict_set a (old + alpha * (r + gamma * nv - old)) (row_of env (q_table w) state))"
      unfolding w' by (simp only: q_write_view(1) v3)
  qed
qed

lemma n_step_return_one: "n_step_return gamma ((s, a, r) # rest) (Suc 0) = r"
  by (simp add: n_step_return_def)

lemma n_step_body_view:
  assumes "n_step_body env 1 alpha gamma eps state act tot [] w = Inr (ns, na, tot', d, traj', w')"
  obtains a r old x where
    "act = Some a" "step env state a = Inr (ns, r, d)" "traj' = []"
    "map_of (row_of env (q_table w) state) a = Some old"
    "d \<longrightarrow> na = None \<and> x = old + alpha * (r - old) \<and>
       trace w' = trace w @ [Stored state a r, Wrote state a x]"
    "\<not> d \<longrightarrow> (\<exists>a' nv. na = Some a' \<and> map_of (row_of env (q_table w) ns) a' = Some nv \<and>
       x = old + alpha * (r + gamma * nv - old) \<and>
       trace w' = trace w @ [Stored state a r, Chose ns, Wrote state a x])"
    "row_of env (q_table w') = (row_of env (q_table w))
       (state := dict_set a x (row_of env (q_table w) state))"
proof -
  from assms obtain a r w1 where act: "act = Some a" and st: "step env state a = Inr (ns, r, d)" and
    "tot' = tot + r" and
    nx: "n_step_next_action env eps ns d (w\<lparr>trace := trace w @ [Stored state a r]\<rparr>) = Inr (na, w1)" and
    up: "n_step_update env 1 alpha gamma ns na d ([] @ [(state, a, r)]) w1 = Inr (traj', w')"
    by (rule n_step_body_inv)
  have len: "1 \<le> length ([] @ [(state, a, r)])" by simp
  from n_step_update_inv [OF up len] obtain s_tau a_tau r0 G w2 old w3 where
    traj: "[] @ [(state, a, r)] = (s_tau, a_tau, r0) # traj'" and
    dT: "d \<Longrightarrow> G = n_step_return gamma ([] @ [(state, a, r)]) 1 \<and> w2 = w1" and
    dF: "\<not> d \<Longrightarrow> \<exists>a' x. na = Some a' \<and> q_read env w1 ns a' = Inr (x, w2) \<and>
               G = n_step_return gamma ([] @ [(state, a, r)]) 1 + gamma ^ 1 * x" and
    rd: "q_read env w2 s_tau a_tau = Inr (old, w3)" and
    w': "w' = q_write env w3 s_tau a_tau (old + alpha * (G - old))"
    by blast
  from traj have tau: "s_tau = state" "a_tau = a" and e: "traj' = []" by simp_all
  note nxe = n_step_next_action_effect [OF nx]
  have base: "row_of env (q_table (w\<lparr>trace := trace w @ [Stored state a r]\<rparr>)) = row_of env (q_table w)"
    by simp
  have v1: "row_of env (q_table w1) = row_of env (q_table w)"
  proof (cases d)
    case True
    with nxe show ?thesis by simp
  next
    case False
    with nxe obtain a' where
      "choose_action_e_greedy env (w\<lparr>trace := trace w @ [Stored state a r]\<rparr>) ns (action_keys env) eps =
         Inr (a', w1)" by blast
    from choose_view(1) [OF this] show ?thesis by simp
  qed
  have t1: "trace w1 = trace w @ Stored state a r # (if d then [] else [Chose ns])"
    using n_step_next_action_trace [OF nx] by simp
  have v2: "row_of env (q_table w2) = row_of env (q_table w)" and t2: "trace w2 = trace w1"
  proof -
    have "row_of env (q_table w2) = row_of env (q_table w) \<and> trace w2 = trace w1"
    proof (cases d)
      case True
      with dT v1 show ?thesis by simp
    next
      case False
      with dF obtain a' x where "q_read env w1 ns a' = Inr (x, w2)" by blast
      from q_read_view(2) [OF this] q_read_view(4) [OF this] v1 show ?thesis by simp
    qed
    then show "row_of env (q_table w2) = row_of env (q_table w)" and "trace w2 = trace w1"
      by simp_all
  qed
  have v3: "row_of env (q_table w3) = row_of env (q_table w)"
    by (simp only: q_read_view(2) [OF rd] v2)
  have t3: "trace w3 = trace w @ Stored state a r # (if d then [] else [Chose ns])"
    by (simp only: q_read_view(4) [OF rd] t2 t1)
  show ?thesis
  proof (rule that [of a r old "old + alpha * (G - old)"])
    show "act = Some a" by (rule act)
    show "step env state a = Inr (ns, r, d)" by (rule st)
    show "traj' = []" by (rule e)
    from q_read_view(1) [OF rd] show "map_of (row_of env (q_table w) state) a = Some old"
      by (simp only: v2 tau)
    show "d \<longrightarrow> na = None \<and> old + alpha * (G - old) = old + alpha * (r - old) \<and>
       trace w' = trace w @ [Stored state a r, Wrote state a (old + alpha * (G - old))]"
    proof
      assume d: d
      from dT [OF d] have G: "G = r" by (simp add: n_step_return_one)
      from nxe d have "na = None" by simp
      moreover have "trace w' = trace w @ [Stored state a r, Wrote state a (old + alpha * (G - old))]"
        unfolding w' using d by (simp only: q_write_view(3) t3 tau) simp
      ultimately show "na = None \<and> old + alpha * (G - old) = old + alpha * (r - old) \<and>
        trace w' = trace w @ [Stored state a r, Wrote state a (old + alpha * (G - old))]"
        using G by simp
    qed
    show "\<not> d \<longrightarrow> (\<exists>a' nv. na = Some a' \<and> map_of (row_of env (q_table w) ns) a' = Some nv \<and>
       old + alpha * (G - old) = old + alpha * (r + gamma * nv - old) \<and>
       trace w' = trace w @ [Stored state a r, Chose ns, Wrote state a (old + alpha * (G - old))])"
    proof
      assume d: "\<not> d"
      from dF [OF d] obtain a' nv where na: "na = Some a'" and
        rn: "q_read env w1 ns a' = Inr (nv, w2)" and
        G: "G = n_step_return gamma ([] @ [(state, a, r)]) 1 + gamma ^ 1 * nv" by blast
      from G have G': "G = r + gamma * nv" by (simp add: n_step_return_one)
      from q_read_view(1) [OF rn] have nv: "map_of (row_of env (q_table w) ns) a' = Some nv"
        by (simp only: v1)
      have tr: "trace w' = trace w @ [Stored state a r, Chose ns, Wrote state a (old + alpha * (G - old))]"
        unfolding w' using d by (simp only: q_write_view(3) t3 tau) simp
      have "na = Some a' \<and> map_of (row_of env (q_table w) ns) a' = Some nv \<and>
        old + alpha * (G - old) = old + alpha * (r + gamma * nv - old) \<and>
        trace w' = trace w @ [Stored state a r, Chose ns, Wrote state a (old + alpha * (G - old))]"
        using na nv G' tr by simp
      then show "\<exists>a' nv. na = Some a' \<and> map_of (row_of env (q_table w) ns) a' = Some nv \<and>
        old + alpha * (G - old) = old + alpha * (r + gamma * nv - old) \<and>
        trace w' = trace w @ [Stored state a r, Chose ns, Wrote state a (old + alpha * (G - old))]"
        by (intro exI)
    qed
    show "row_of env (q_table w') = (row_of env (q_table w))
       (state := dict_set a (old + alpha * (G - old)) (row_of env (q_table w) state))"
      unfolding w' by (simp only: q_write_view(1) v3 tau)
  qed
qed

subsection \<open>The first step of a loop shows in its record\<close>

lemma sarsa_loop_first:
  assumes run: "sarsa_loop env alpha gamma eps state a tot w = Some (Inr (tot', w'))"
  shows "\<exists>x more. writes (trace w') = writes (trace w) @ (state, a, x) # more"
proof (rule sarsa_loop_rule [OF run, where
    I = "\<lambda>s a' t w1. (s = state \<and> a' = a \<and> w1 = w) \<or>
           (\<exists>x more. writes (trace w1) = writes (trace w) @ (state, a, x) # more)" and
    Q = "\<lambda>t w1. \<exists>x more. writes (trace w1) = writes (trace w) @ (state, a, x) # more"])
  show "(state = state \<and> a = a \<and> w = w) \<or>
        (\<exists>x more. writes (trace w) = writes (trace w) @ (state, a, x) # more)" by simp
next
  fix s a' t w1 ns na t1 d w2
  assume I: "(s = state \<and> a' = a \<and> w1 = w) \<or>
           (\<exists>x more. writes (trace w1) = writes (trace w) @ (state, a, x) # more)"
    and st: "sarsa_step env alpha gamma eps s a' t w1 = Inr (ns, na, t1, d, w2)"
  from st obtain r old nv where
    "step env s a' = Inr (ns, r, d)"
    "map_of (row_of env (q_table w1) s) a' = Some old"
    "map_of (row_of env (q_table w1) ns) na = Some nv" and
    tr: "trace w2 = trace w1 @ [Chose ns, Wrote s a' (old + alpha * (r + gamma * nv - old))]" and
    "row_of env (q_table w2) = (row_of env (q_table w1))
       (s := dict_set a' (old + alpha * (r + gamma * nv - old)) (row_of env (q_table w1) s))"
    by (rule sarsa_step_view)
  from tr have wr: "writes (trace w2) =
      writes (trace w1) @ [(s, a', old + alpha * (r + gamma * nv - old))]"
    by (simp add: writes_append)
  have R: "\<exists>x more. writes (trace w2) = writes (trace w) @ (state, a, x) # more"
    using I
  proof
    assume "s = state \<and> a' = a \<and> w1 = w"
    with wr have "writes (trace w2) =
        writes (trace w) @ (state, a, old + alpha * (r + gamma * nv - old)) # []" by simp
    then show ?thesis by (intro exI)
  next
    assume "\<exists>x more. writes (trace w1) = writes (trace w) @ (state, a, x) # more"
    then obtain x more where "writes (trace w1) = writes (trace w) @ (state, a, x) # more"
      by blast
    with wr have "writes (trace w2) = writes (trace w) @ (state, a, x) #
        (more @ [(s, a', old + alpha * (r + gamma * nv - old))])" by simp
    then show ?thesis by (intro exI)
  qed
  from R show "(d \<longrightarrow> (\<exists>x more. writes (trace w2) = writes (trace w) @ (state, a, x) # more)) \<and>
     (\<not> d \<longrightarrow> (ns = state \<and> na = a \<and> w2 = w) \<or>
           (\<exists>x more. writes (trace w2) = writes (trace w) @ (state, a, x) # more))"
    by simp
qed

lemma n_step_loop_first:
  assumes run: "n_step_loop env n alpha gamma eps cap state act tot False traj c w =
             Inr (state', act', tot', d', traj', k, w')"
  shows "(cap \<le> c \<and> w' = w) \<or>
         (c < cap \<and> (\<exists>a r more. act = Some a \<and>
            stored (trace w') = stored (trace w) @ (state, a, r) # more))"
proof (cases "c < cap")
  case False
  with run have "w' = w" by (subst (asm) n_step_loop.simps) simp
  with False show ?thesis by simp
next
  case True
  let ?I = "\<lambda>(s::pos) (act1::action option) (t::real) (d::bool) (tr::trajectory) (c1::nat) w1.
      (w1 = w \<and> c1 = c \<and> s = state \<and> act1 = act \<and> \<not> d) \<or>
      (\<exists>a r more. act = Some a \<and> stored (trace w1) = stored (trace w) @ (state, a, r) # more)"
  have "?I state' act' tot' d' traj' k w' \<and> (d' \<or> cap \<le> k)"
  proof (rule n_step_loop_rule [OF run, where I = ?I])
    show "(w = w \<and> c = c \<and> state = state \<and> act = act \<and> \<not> False) \<or>
      (\<exists>a r more. act = Some a \<and> stored (trace w) = stored (trace w) @ (state, a, r) # more)"
      by simp
  next
    fix s act1 t d tr c1 w1 ns na t1 d1 tr1 w2
    assume I: "(w1 = w \<and> c1 = c \<and> s = state \<and> act1 = act \<and> \<not> d) \<or>
      (\<exists>a r more. act = Some a \<and> stored (trace w1) = stored (trace w) @ (state, a, r) # more)"
      and body: "n_step_body env n alpha gamma eps s act1 t tr w1 = Inr (ns, na, t1, d1, tr1, w2)"
    from body obtain a r es where
      a: "act1 = Some a" and "step env s a = Inr (ns, r, d1)" and "t1 = t + r" and
      tr: "trace w2 = trace w1 @ Stored s a r # es" and ses: "stored es = []" and
      "n \<le> Suc (length tr) \<longrightarrow>
         (\<exists>e. tr @ [(s, a, r)] = e # tr1 \<and> map pair_of (writes es) = [pair_of e])" and
      "\<not> n \<le> Suc (length tr) \<longrightarrow> tr1 = tr @ [(s, a, r)] \<and> writes es = []"
      by (rule n_step_body_events)
    from tr ses have st: "stored (trace w2) = stored (trace w1) @ [(s, a, r)]"
      by (simp add: stored_append)
    have "\<exists>a r more. act = Some a \<and> stored (trace w2) = stored (trace w) @ (state, a, r) # more"
      using I
    proof
      assume "w1 = w \<and> c1 = c \<and> s = state \<and> act1 = act \<and> \<not> d"
      with st a have "act = Some a \<and> stored (trace w2) = stored (trace w) @ (state, a, r) # []"
        by simp
      then show ?thesis by (intro exI)
    next
      assume "\<exists>a r more. act = Some a \<and>
        stored (trace w1) = stored (trace w) @ (state, a, r) # more"
      then obtain a0 r0 more where "act = Some a0"
        "stored (trace w1) = stored (trace w) @ (state, a0, r0) # more" by blast
      with st have "act = Some a0 \<and>
        stored (trace w2) = stored (trace w) @ (state, a0, r0) # (more @ [(s, a, r)])" by simp
      then show ?thesis by (intro exI)
    qed
    then show "(w2 = w \<and> Suc c1 = c \<and> ns = state \<and> na = act \<and> \<not> d1) \<or>
      (\<exists>a r more. act = Some a \<and> stored (trace w2) = stored (trace w) @ (state, a, r) # more)"
      by (rule disjI2)
  qed
  then have fin: "(w' = w \<and> k = c \<and> state' = state \<and> act' = act \<and> \<not> d') \<or>
      (\<exists>a r more. act = Some a \<and> stored (trace w') = stored (trace w) @ (state, a, r) # more)"
    and stop: "d' \<or> cap \<le> k" by simp_all
  from fin show ?thesis
  proof
    assume "w' = w \<and> k = c \<and> state' = state \<and> act' = act \<and> \<not> d'"
    with stop True show ?thesis by simp
  next
    assume "\<exists>a r more. act = Some a \<and>
      stored (trace w') = stored (trace w) @ (state, a, r) # more"
    with True show ?thesis by simp
  qed
qed

lemma pair_of_simp: "pair_of (s, a, x) = (s, a)"
  by (simp add: pair_of_def)

lemma actions_agree:
  assumes srun: "sarsa_loop env alpha gamma eps state a tot ws1 = Some (Inr (tot', ws'))"
    and nrun: "n_step_loop env n alpha gamma eps cap state act tn False traj c wn1 =
             Inr (st', act', tn', d', traj', k, wn')"
    and wS: "writes (trace ws1) = W0 @ X" and sN: "stored (trace wn1) = S0 @ Y"
    and pr: "map pair_of Y = map pair_of X"
    and H: "\<exists>Xf Yf. writes (trace ws') = W0 @ Xf \<and> stored (trace wn') = S0 @ Yf \<and>
              map pair_of Xf = map pair_of Yf"
  shows "c < cap \<and> act = Some a"
proof -
  from sarsa_loop_first [OF srun] wS obtain x more where
    s': "writes (trace ws') = W0 @ X @ (state, a, x) # more" by auto
  from H obtain Xf Yf where
    Xf: "writes (trace ws') = W0 @ Xf" and Yf: "stored (trace wn') = S0 @ Yf" and
    same: "map pair_of Xf = map pair_of Yf" by blast
  from s' Xf have Xf': "Xf = X @ (state, a, x) # more" by simp
  from n_step_loop_first [OF nrun] show ?thesis
  proof
    assume "cap \<le> c \<and> wn' = wn1"
    with sN Yf have "Yf = Y" by simp
    with same Xf' pr have "map pair_of (X @ (state, a, x) # more) = map pair_of X" by simp
    then have "length (map pair_of (X @ (state, a, x) # more)) = length (map pair_of X)"
      by (rule arg_cong)
    then show ?thesis by simp
  next
    assume "c < cap \<and> (\<exists>a r more. act = Some a \<and>
            stored (trace wn') = stored (trace wn1) @ (state, a, r) # more)"
    then obtain a0 r0 more0 where c: "c < cap" and act: "act = Some a0" and
      n': "stored (trace wn') = stored (trace wn1) @ (state, a0, r0) # more0" by blast
    from n' sN Yf have "Yf = Y @ (state, a0, r0) # more0" by simp
    with same Xf' have "map pair_of X @ (state, a) # map pair_of more =
        map pair_of Y @ (state, a0) # map pair_of more0"
      by (simp add: pair_of_simp)
    with pr have "a = a0" by simp
    with c act show ?thesis by simp
  qed
qed

subsection \<open>The two loops side by side\<close>

lemma default_row_value: "map_of (default_row env) a = Some v \<Longrightarrow> v = 0"
proof -
  assume "map_of (default_row env) a = Some v"
  then have "(a, v) \<in> set (default_row env)" by (rule map_of_SomeD)
  then have "v \<in> snd ` set (default_row env)" by force
  with default_row_zero [of env] show "v = 0" by (rule bspec)
qed

lemma lockstep_step:
  assumes ep: "episodic env"
    and ng: "s \<noteq> goal_pos env" and gu: "goal_untouched env ws1"
    and srun: "sarsa_loop env alpha gamma eps s a t ws1 = Some (Inr (tot_s, ws'))"
    and nrun: "n_step_loop env 1 alpha gamma eps cap s (Some a) tn False [] c wn1 =
                 Inr (st', act', tn', d', traj', k, wn')"
    and view: "row_of env (q_table ws1) = row_of env (q_table wn1)"
    and wS: "writes (trace ws1) = W0 @ X" and wN: "writes (trace wn1) = V0 @ X"
    and sN: "stored (trace wn1) = S0 @ Y" and pr: "map pair_of Y = map pair_of X"
    and H: "\<exists>Xf Yf. writes (trace ws') = W0 @ Xf \<and> stored (trace wn') = S0 @ Yf \<and>
              map pair_of Xf = map pair_of Yf"
    and sstep: "sarsa_step env alpha gamma eps s a t ws1 = Inr (ns, na, t1, d, w1s)"
  obtains x r w1n t1n where
    "writes (trace w1s) = W0 @ X @ [(s, a, x)]"
    "writes (trace w1n) = V0 @ X @ [(s, a, x)]"
    "stored (trace w1n) = S0 @ Y @ [(s, a, r)]"
    "row_of env (q_table w1s) = row_of env (q_table w1n)"
    "d \<longleftrightarrow> ns = goal_pos env" "goal_untouched env w1s"
    "d \<longrightarrow> ws' = w1s \<and> wn' = w1n \<and> traj' = []"
    "\<not> d \<longrightarrow> sarsa_loop env alpha gamma eps ns na t1 w1s = Some (Inr (tot_s, ws')) \<and>
       n_step_loop env 1 alpha gamma eps cap ns (Some na) t1n False [] (Suc c) w1n =
         Inr (st', act', tn', d', traj', k, wn')"
proof -
  from sstep obtain r old nv where
    st: "step env s a = Inr (ns, r, d)" and
    old: "map_of (row_of env (q_table ws1) s) a = Some old" and
    nv: "map_of (row_of env (q_table ws1) ns) na = Some nv" and
    ts: "trace w1s = trace ws1 @ [Chose ns, Wrote s a (old + alpha * (r + gamma * nv - old))]" and
    vs: "row_of env (q_table w1s) = (row_of env (q_table ws1))
       (s := dict_set a (old + alpha * (r + gamma * nv - old)) (row_of env (q_table ws1) s))"
    by (rule sarsa_step_view)
  let ?x = "old + alpha * (r + gamma * nv - old)"
  have dg: "d \<longleftrightarrow> ns = goal_pos env" by (rule episodic_step [OF ep ng st])
  from gu have gu1: "goal_untouched env w1s" by (rule sarsa_step_goal(2) [OF ep ng sstep])
  from srun sstep have srest:
    "(if d then Some (Inr (t1, w1s)) else sarsa_loop env alpha gamma eps ns na t1 w1s) =
       Some (Inr (tot_s, ws'))"
    by (subst (asm) sarsa_loop.simps) simp
  from actions_agree [OF srun nrun wS sN pr H] have c: "c < cap" by simp
  from nrun c have unf:
    "(case n_step_body env 1 alpha gamma eps s (Some a) tn [] wn1 of
        Inl e \<Rightarrow> Inl e
      | Inr (ns', nan, t1n, dn, traj1, w1n) \<Rightarrow>
          n_step_loop env 1 alpha gamma eps cap ns' nan t1n dn traj1 (Suc c) w1n) =
     Inr (st', act', tn', d', traj', k, wn')"
    by (subst (asm) n_step_loop.simps) simp
  then obtain b where body0: "n_step_body env 1 alpha gamma eps s (Some a) tn [] wn1 = Inr b"
    by (cases "n_step_body env 1 alpha gamma eps s (Some a) tn [] wn1") simp_all
  obtain ns' nan t1n dn traj1 w1n where b: "b = (ns', nan, t1n, dn, traj1, w1n)"
    by (cases b) auto
  from body0 b have body: "n_step_body env 1 alpha gamma eps s (Some a) tn [] wn1 =
      Inr (ns', nan, t1n, dn, traj1, w1n)" by simp
  from unf body have nrest0:
    "n_step_loop env 1 alpha gamma eps cap ns' nan t1n dn traj1 (Suc c) w1n =
       Inr (st', act', tn', d', traj', k, wn')" by simp
  from body obtain a0 r0 old0 x0 where
    a0: "Some a = Some a0" and st0: "step env s a0 = Inr (ns', r0, dn)" and e: "traj1 = []" and
    old0: "map_of (row_of env (q_table wn1) s) a0 = Some old0" and
    dT: "dn \<longrightarrow> nan = None \<and> x0 = old0 + alpha * (r0 - old0) \<and>
       trace w1n = trace wn1 @ [Stored s a0 r0, Wrote s a0 x0]" and
    dF: "\<not> dn \<longrightarrow> (\<exists>a' nv0. nan = Some a' \<and> map_of (row_of env (q_table wn1) ns') a' = Some nv0 \<and>
       x0 = old0 + alpha * (r0 + gamma * nv0 - old0) \<and>
       trace w1n = trace wn1 @ [Stored s a0 r0, Chose ns', Wrote s a0 x0])" and
    vn: "row_of env (q_table w1n) = (row_of env (q_table wn1))
       (s := dict_set a0 x0 (row_of env (q_table wn1) s))"
    by (rule n_step_body_view)
  from a0 have a0': "a0 = a" by simp
  from st0 st a0' have same: "ns' = ns" "r0 = r" "dn = d" by simp_all
  from old old0 view a0' have oo: "old0 = old" by simp
  have nrest: "n_step_loop env 1 alpha gamma eps cap ns nan t1n d [] (Suc c) w1n =
       Inr (st', act', tn', d', traj', k, wn')"
    using nrest0 same e by simp
  from ts wS have w1S: "writes (trace w1s) = W0 @ X @ [(s, a, ?x)]"
    by (simp add: writes_append)
  have st1N: "stored (trace w1n) = S0 @ Y @ [(s, a, r)]"
    using dT dF sN same a0' by (cases d) (auto simp add: stored_append)
  have wr1N: "writes (trace w1n) = V0 @ X @ [(s, a, x0)]"
    using dT dF wN same a0' by (cases d) (auto simp add: writes_append)
  have xx: "x0 = ?x \<and> (\<not> d \<longrightarrow> nan = Some na)"
  proof (cases d)
    case True
    with dg gu have "row_of env (q_table ws1) ns = default_row env"
      by (simp add: goal_untouched_def)
    with nv have "nv = 0" by (simp add: default_row_value)
    with dT True same oo show ?thesis by simp
  next
    case False
    with dF same obtain a' nv0 where nan: "nan = Some a'" and
      nv0: "map_of (row_of env (q_table wn1) ns) a' = Some nv0" and
      x0: "x0 = old0 + alpha * (r + gamma * nv0 - old0)" by auto
    from srest False have sr: "sarsa_loop env alpha gamma eps ns na t1 w1s = Some (Inr (tot_s, ws'))"
      by simp
    from nrest nan False
    have nr: "n_step_loop env 1 alpha gamma eps cap ns (Some a') t1n False [] (Suc c) w1n =
       Inr (st', act', tn', d', traj', k, wn')" by simp
    have w1S': "writes (trace w1s) = W0 @ (X @ [(s, a, ?x)])" using w1S by simp
    have st1N': "stored (trace w1n) = S0 @ (Y @ [(s, a, r)])" using st1N by simp
    have pr': "map pair_of (Y @ [(s, a, r)]) = map pair_of (X @ [(s, a, ?x)])"
      using pr by (simp add: pair_of_simp)
    from actions_agree [OF sr nr w1S' st1N' pr' H] have "a' = na" by simp
    with nv nv0 view have "nv0 = nv" by simp
    with x0 oo nan \<open>a' = na\<close> show ?thesis by simp
  qed
  from xx have x0: "x0 = ?x" and nan: "\<not> d \<longrightarrow> nan = Some na" by simp_all
  show ?thesis
  proof (rule that [of ?x w1n r t1n])
    show "writes (trace w1s) = W0 @ X @ [(s, a, ?x)]" by (rule w1S)
    show "writes (trace w1n) = V0 @ X @ [(s, a, ?x)]" using wr1N x0 by simp
    show "stored (trace w1n) = S0 @ Y @ [(s, a, r)]" by (rule st1N)
    show "row_of env (q_table w1s) = row_of env (q_table w1n)"
      using vs vn view x0 a0' by simp
    show "d \<longleftrightarrow> ns = goal_pos env" by (rule dg)
    show "goal_untouched env w1s" by (rule gu1)
    show "d \<longrightarrow> ws' = w1s \<and> wn' = w1n \<and> traj' = []"
    proof
      assume d: d
      with srest have "ws' = w1s" by simp
      moreover from nrest d have "wn' = w1n \<and> traj' = []"
        by (subst (asm) n_step_loop.simps) simp
      ultimately show "ws' = w1s \<and> wn' = w1n \<and> traj' = []" by simp
    qed
    show "\<not> d \<longrightarrow> sarsa_loop env alpha gamma eps ns na t1 w1s = Some (Inr (tot_s, ws')) \<and>
       n_step_loop env 1 alpha gamma eps cap ns (Some na) t1n False [] (Suc c) w1n =
         Inr (st', act', tn', d', traj', k, wn')"
    proof
      assume d: "\<not> d"
      with srest have "sarsa_loop env alpha gamma eps ns na t1 w1s = Some (Inr (tot_s, ws'))"
        by simp
      moreover from nrest nan d
      have "n_step_loop env 1 alpha gamma eps cap ns (Some na) t1n False [] (Suc c) w1n =
         Inr (st', act', tn', d', traj', k, wn')" by simp
      ultimately show "sarsa_loop env alpha gamma eps ns na t1 w1s = Some (Inr (tot_s, ws')) \<and>
       n_step_loop env 1 alpha gamma eps cap ns (Some na) t1n False [] (Suc c) w1n =
         Inr (st', act', tn', d', traj', k, wn')" by simp
    qed
  qed
qed

lemma sarsa_n_step_lockstep:
  assumes ep: "episodic env"
    and ng: "state \<noteq> goal_pos env" and gu: "goal_untouched env ws"
    and srun: "sarsa_loop env alpha gamma eps state a tot ws = Some (Inr (tot_s, ws'))"
    and nrun: "n_step_loop env 1 alpha gamma eps cap state (Some a) tn False [] c wn =
                 Inr (st', act', tn', d', traj', k, wn')"
    and view: "row_of env (q_table ws) = row_of env (q_table wn)"
    and H: "\<exists>Xf Yf. writes (trace ws') = writes (trace ws) @ Xf \<and>
              stored (trace wn') = stored (trace wn) @ Yf \<and>
              map pair_of Xf = map pair_of Yf"
  shows "\<exists>X. writes (trace ws') = writes (trace ws) @ X \<and>
             writes (trace wn') = writes (trace wn) @ X \<and>
             row_of env (q_table ws') = row_of env (q_table wn') \<and> traj' = []"
proof (rule sarsa_loop_rule [OF srun, where
    I = "\<lambda>s a t ws1. s \<noteq> goal_pos env \<and> goal_untouched env ws1 \<and>
           sarsa_loop env alpha gamma eps s a t ws1 = Some (Inr (tot_s, ws')) \<and>
           (\<exists>c wn1 tn X Y.
              n_step_loop env 1 alpha gamma eps cap s (Some a) tn False [] c wn1 =
                Inr (st', act', tn', d', traj', k, wn') \<and>
              row_of env (q_table ws1) = row_of env (q_table wn1) \<and>
              writes (trace ws1) = writes (trace ws) @ X \<and>
              writes (trace wn1) = writes (trace wn) @ X \<and>
              stored (trace wn1) = stored (trace wn) @ Y \<and>
              map pair_of Y = map pair_of X)" and
    Q = "\<lambda>t ws1. \<exists>X. writes (trace ws1) = writes (trace ws) @ X \<and>
             writes (trace wn') = writes (trace wn) @ X \<and>
             row_of env (q_table ws1) = row_of env (q_table wn') \<and> traj' = []"])
  have "n_step_loop env 1 alpha gamma eps cap state (Some a) tn False [] c wn =
                Inr (st', act', tn', d', traj', k, wn') \<and>
              row_of env (q_table ws) = row_of env (q_table wn) \<and>
              writes (trace ws) = writes (trace ws) @ [] \<and>
              writes (trace wn) = writes (trace wn) @ [] \<and>
              stored (trace wn) = stored (trace wn) @ [] \<and>
              map pair_of [] = map pair_of ([] :: (pos \<times> action \<times> real) list)"
    using nrun view by simp
  then have "\<exists>c wn1 tn X Y.
              n_step_loop env 1 alpha gamma eps cap state (Some a) tn False [] c wn1 =
                Inr (st', act', tn', d', traj', k, wn') \<and>
              row_of env (q_table ws) = row_of env (q_table wn1) \<and>
              writes (trace ws) = writes (trace ws) @ X \<and>
              writes (trace wn1) = writes (trace wn) @ X \<and>
              stored (trace wn1) = stored (trace wn) @ Y \<and>
              map pair_of Y = map pair_of X"
    by (intro exI)
  with ng gu srun show "state \<noteq> goal_pos env \<and> goal_untouched env ws \<and>
           sarsa_loop env alpha gamma eps state a tot ws = Some (Inr (tot_s, ws')) \<and>
           (\<exists>c wn1 tn X Y.
              n_step_loop env 1 alpha gamma eps cap state (Some a) tn False [] c wn1 =
                Inr (st', act', tn', d', traj', k, wn') \<and>
              row_of env (q_table ws) = row_of env (q_table wn1) \<and>
              writes (trace ws) = writes (trace ws) @ X \<and>
              writes (trace wn1) = writes (trace wn) @ X \<and>
              stored (trace wn1) = stored (trace wn) @ Y \<and>
              map pair_of Y = map pair_of X)"
    by (intro conjI)
next
  fix s a t ws1 ns na t1 d w1s
  assume I: "s \<noteq> goal_pos env \<and> goal_untouched env ws1 \<and>
           sarsa_loop env alpha gamma eps s a t ws1 = Some (Inr (tot_s, ws')) \<and>
           (\<exists>c wn1 tn X Y.
              n_step_loop env 1 alpha gamma eps cap s (Some a) tn False [] c wn1 =
                Inr (st', act', tn', d', traj', k, wn') \<and>
              row_of env (q_table ws1) = row_of env (q_table wn1) \<and>
              writes (trace ws1) = writes (trace ws) @ X \<and>
              writes (trace wn1) = writes (trace wn) @ X \<and>
              stored (trace wn1) = stored (trace wn) @ Y \<and>
              map pair_of Y = map pair_of X)"
    and sstep: "sarsa_step env alpha gamma eps s a t ws1 = Inr (ns, na, t1, d, w1s)"
  from I have ng1: "s \<noteq> goal_pos env" and gu1: "goal_untouched env ws1" and
    sr: "sarsa_loop env alpha gamma eps s a t ws1 = Some (Inr (tot_s, ws'))" by simp_all
  from I obtain c1 wn1 tn1 X Y where
    nr: "n_step_loop env 1 alpha gamma eps cap s (Some a) tn1 False [] c1 wn1 =
                Inr (st', act', tn', d', traj', k, wn')" and
    v: "row_of env (q_table ws1) = row_of env (q_table wn1)" and
    wS: "writes (trace ws1) = writes (trace ws) @ X" and
    wN: "writes (trace wn1) = writes (trace wn) @ X" and
    sN: "stored (trace wn1) = stored (trace wn) @ Y" and
    pr: "map pair_of Y = map pair_of X" by blast
  from ep ng1 gu1 sr nr v wS wN sN pr H sstep obtain x r w1n t1n where
    f1: "writes (trace w1s) = writes (trace ws) @ X @ [(s, a, x)]" and
    f2: "writes (trace w1n) = writes (trace wn) @ X @ [(s, a, x)]" and
    f3: "stored (trace w1n) = stored (trace wn) @ Y @ [(s, a, r)]" and
    f4: "row_of env (q_table w1s) = row_of env (q_table w1n)" and
    f5: "d \<longleftrightarrow> ns = goal_pos env" and f6: "goal_untouched env w1s" and
    f7: "d \<longrightarrow> ws' = w1s \<and> wn' = w1n \<and> traj' = []" and
    f8: "\<not> d \<longrightarrow> sarsa_loop env alpha gamma eps ns na t1 w1s = Some (Inr (tot_s, ws')) \<and>
       n_step_loop env 1 alpha gamma eps cap ns (Some na) t1n False [] (Suc c1) w1n =
         Inr (st', act', tn', d', traj', k, wn')"
    by (rule lockstep_step)
  have pr': "map pair_of (Y @ [(s, a, r)]) = map pair_of (X @ [(s, a, x)])"
    using pr by (simp add: pair_of_simp)
  show "(d \<longrightarrow> (\<exists>X. writes (trace w1s) = writes (trace ws) @ X \<and>
             writes (trace wn') = writes (trace wn) @ X \<and>
             row_of env (q_table w1s) = row_of env (q_table wn') \<and> traj' = [])) \<and>
        (\<not> d \<longrightarrow> ns \<noteq> goal_pos env \<and> goal_untouched env w1s \<and>
           sarsa_loop env alpha gamma eps ns na t1 w1s = Some (Inr (tot_s, ws')) \<and>
           (\<exists>c wn1 tn X Y.
              n_step_loop env 1 alpha gamma eps cap ns (Some na) tn False [] c wn1 =
                Inr (st', act', tn', d', traj', k, wn') \<and>
              row_of env (q_table w1s) = row_of env (q_table wn1) \<and>
              writes (trace w1s) = writes (trace ws) @ X \<and>
              writes (trace wn1) = writes (trace wn) @ X \<and>
              stored (trace wn1) = stored (trace wn) @ Y \<and>
              map pair_of Y = map pair_of X))"
  proof (intro conjI impI)
    assume d: d
    with f7 have e: "wn' = w1n" "traj' = []" by simp_all
    have "writes (trace w1s) = writes (trace ws) @ (X @ [(s, a, x)]) \<and>
             writes (trace wn') = writes (trace wn) @ (X @ [(s, a, x)]) \<and>
             row_of env (q_table w1s) = row_of env (q_table wn') \<and> traj' = []"
      using f1 f2 f4 e by simp
    then show "\<exists>X. writes (trace w1s) = writes (trace ws) @ X \<and>
             writes (trace wn') = writes (trace wn) @ X \<and>
             row_of env (q_table w1s) = row_of env (q_table wn') \<and> traj' = []"
      by (rule exI)
  next
    assume "\<not> d"
    with f5 show "ns \<noteq> goal_pos env" by simp
  next
    assume "\<not> d"
    show "goal_untouched env w1s" by (rule f6)
  next
    assume "\<not> d"
    with f8 show "sarsa_loop env alpha gamma eps ns na t1 w1s = Some (Inr (tot_s, ws'))" by simp
  next
    assume "\<not> d"
    with f8 have nr': "n_step_loop env 1 alpha gamma eps cap ns (Some na) t1n False [] (Suc c1) w1n =
         Inr (st', act', tn', d', traj', k, wn')" by simp
    have "n_step_loop env 1 alpha gamma eps cap ns (Some na) t1n False [] (Suc c1) w1n =
                Inr (st', act', tn', d', traj', k, wn') \<and>
              row_of env (q_table w1s) = row_of env (q_table w1n) \<and>
              writes (trace w1s) = writes (trace ws) @ (X @ [(s, a, x)]) \<and>
              writes (trace w1n) = writes (trace wn) @ (X @ [(s, a, x)]) \<and>
              stored (trace w1n) = stored (trace wn) @ (Y @ [(s, a, r)]) \<and>
              map pair_of (Y @ [(s, a, r)]) = map pair_of (X @ [(s, a, x)])"
      using nr' f1 f2 f3 f4 pr' by simp
    then show "\<exists>c wn1 tn X Y.
              n_step_loop env 1 alpha gamma eps cap ns (Some na) tn False [] c wn1 =
                Inr (st', act', tn', d', traj', k, wn') \<and>
              row_of env (q_table w1s) = row_of env (q_table wn1) \<and>
              writes (trace w1s) = writes (trace ws) @ X \<and>
              writes (trace wn1) = writes (trace wn) @ X \<and>
              stored (trace wn1) = stored (trace wn) @ Y \<and>
              map pair_of Y = map pair_of X"
      by (intro exI)
  qed
qed

lemma sarsa_episode_inv:
  assumes "sarsa_episode env alpha gamma eps w = Some (Inr (tot', w'))"
  obtains a w1 where
    "choose_action_e_greedy env w (start_pos env) (action_keys env) eps = Inr (a, w1)"
    "sarsa_loop env alpha gamma eps (start_pos env) a 0 w1 = Some (Inr (tot', w'))"
proof -
  obtain c where ch: "choose_action_e_greedy env w (start_pos env) (action_keys env) eps = Inr c"
    using assms by (cases "choose_action_e_greedy env w (start_pos env) (action_keys env) eps")
      (simp_all add: sarsa_episode_def)
  obtain a w1 where c: "c = (a, w1)" by (cases c)
  show ?thesis
  proof (rule that [of a w1])
    show "choose_action_e_greedy env w (start_pos env) (action_keys env) eps = Inr (a, w1)"
      using ch c by simp
    show "sarsa_loop env alpha gamma eps (start_pos env) a 0 w1 = Some (Inr (tot', w'))"
      using assms ch c by (simp add: sarsa_episode_def)
  qed
qed

lemma episode_writes_append:
  "writes (trace w') = writes (trace w) @ X \<Longrightarrow> episode_writes w w' = X"
  by (simp add: episode_writes_def)

lemma episode_stored_append:
  "stored (trace w') = stored (trace w) @ Y \<Longrightarrow> episode_stored w w' = Y"
  by (simp add: episode_stored_def)

text \<open>
  C2. Take one episode of \<^verbatim>\<open>sarsa\<close> and one episode of \<^verbatim>\<open>n_step_sarsa\<close> with
  \<^verbatim>\<open>n_steps = 1\<close>, started on tables that give the same row at every lookup (the goal's
  row being untouched, as it is throughout training), and suppose they follow the same
  trajectory: the \<open>(state, action)\<close> pairs \<^verbatim>\<open>sarsa\<close> steps from, which are the pairs it
  updates, are in order the pairs \<^verbatim>\<open>n_step_sarsa\<close> appends to its buffer (the rewards are
  then the same, \<^verbatim>\<open>env.step\<close> being a function). Then the two episodes make the same
  sequence of assignments \<^verbatim>\<open>q_table[s][a] = x\<close>, with the same values, and end on tables
  that again give the same row at every lookup. The random sources may differ.
\<close>

theorem n_step_one_is_sarsa:
  assumes ep: "episodic env" and gu: "goal_untouched env ws"
    and view: "row_of env (q_table ws) = row_of env (q_table wn)"
    and srun: "sarsa_episode env alpha gamma epsilon ws = Some (Inr (tot_s, ws'))"
    and nrun: "n_step_episode env 1 alpha gamma epsilon max_steps wn = Inr (tot_n, traj', wn')"
    and same: "map pair_of (episode_writes ws ws') = map pair_of (episode_stored wn wn')"
  shows "episode_writes wn wn' = episode_writes ws ws' \<and>
         row_of env (q_table wn') = row_of env (q_table ws')"
proof -
  from srun obtain a w1s where
    chs: "choose_action_e_greedy env ws (start_pos env) (action_keys env) epsilon = Inr (a, w1s)" and
    sl: "sarsa_loop env alpha gamma epsilon (start_pos env) a 0 w1s = Some (Inr (tot_s, ws'))"
    by (rule sarsa_episode_inv)
  from nrun obtain an w1n state act d traj k w2n where
    chn: "choose_action_e_greedy env wn (start_pos env) (action_keys env) epsilon = Inr (an, w1n)" and
    nl: "n_step_loop env 1 alpha gamma epsilon max_steps (start_pos env) (Some an) 0 False [] 0 w1n =
       Inr (state, act, tot_n, d, traj, k, w2n)" and
    dr: "n_step_drain env alpha gamma traj w2n = Inr (traj', wn')"
    by (rule n_step_episode_inv)
  from ep have ng: "start_pos env \<noteq> goal_pos env" by (simp add: episodic_def)
  from chs gu have gu1: "goal_untouched env w1s" by (rule goal_untouched_choose)
  have v1: "row_of env (q_table w1s) = row_of env (q_table w1n)"
    by (simp only: choose_view(1) [OF chs] choose_view(1) [OF chn] view)
  have ts: "writes (trace w1s) = writes (trace ws)"
    by (simp add: choose_view(2) [OF chs] writes_append)
  have tn: "writes (trace w1n) = writes (trace wn)"
    by (simp add: choose_view(2) [OF chn] writes_append)
  have sn: "stored (trace w1n) = stored (trace wn)"
    by (simp add: choose_view(2) [OF chn] stored_append)
  from n_step_drain_result [OF dr] have sd: "stored (trace wn') = stored (trace w2n)" by simp
  from sarsa_loop_first [OF sl] obtain Xf where
    Xf: "writes (trace ws') = writes (trace w1s) @ Xf" by blast
  have "\<exists>Yf. stored (trace w2n) = stored (trace w1n) @ Yf"
    using n_step_loop_first [OF nl] by auto
  then obtain Yf where Yf: "stored (trace w2n) = stored (trace w1n) @ Yf" by blast
  from Xf ts have "episode_writes ws ws' = Xf" by (simp add: episode_writes_append)
  moreover from Yf sn sd have "episode_stored wn wn' = Yf" by (simp add: episode_stored_append)
  ultimately have pf: "map pair_of Xf = map pair_of Yf" using same by simp
  from Xf Yf pf have H: "\<exists>Xf Yf. writes (trace ws') = writes (trace w1s) @ Xf \<and>
      stored (trace w2n) = stored (trace w1n) @ Yf \<and> map pair_of Xf = map pair_of Yf"
    by blast
  have w0: "writes (trace w1s) = writes (trace w1s) @ []"
    and s0: "stored (trace w1n) = stored (trace w1n) @ []"
    and p0: "map pair_of ([] :: (pos \<times> action \<times> real) list) = map pair_of []" by simp_all
  from actions_agree [OF sl nl w0 s0 p0 H] have aa: "an = a" by simp
  from sarsa_n_step_lockstep [OF ep ng gu1 sl nl [unfolded aa] v1 H] obtain X where
    X1: "writes (trace ws') = writes (trace w1s) @ X" and
    X2: "writes (trace w2n) = writes (trace w1n) @ X" and
    vf: "row_of env (q_table ws') = row_of env (q_table w2n)" and e: "traj = []" by blast
  from dr e have fin: "wn' = w2n" by simp
  from X1 ts have "episode_writes ws ws' = X" by (simp add: episode_writes_append)
  moreover from X2 tn fin have "episode_writes wn wn' = X" by (simp add: episode_writes_append)
  ultimately show ?thesis using vf fin by simp
qed

lemma sarsa_episode_corridor:
  "sarsa_episode corridor_env (1/2) 1 0 (fresh rng1) =
     Some (Inr (- 1,
       \<lparr>q_table = [((0, 0), [(''W'', 0), (''E'', - (1/2))]),
                   ((0, 1), [(''W'', 0), (''E'', 0)]),
                   ((0, 2), [(''W'', 0), (''E'', 0)])],
        rand = rng1\<lparr>drawn := 6\<rparr>,
        trace = [Chose (0, 0), Chose (0, 1), Wrote (0, 0) ''E'' (- (1/2)),
                 Chose (0, 2), Wrote (0, 1) ''E'' 0]\<rparr>))"
  apply (simp add: sarsa_episode_def corridor_simps td_simps)
  apply (subst sarsa_loop.simps, simp add: sarsa_step_def corridor_simps td_simps)
  apply (subst sarsa_loop.simps, simp add: sarsa_step_def corridor_simps td_simps)
  done

lemma n_step_one_episode_corridor:
  "n_step_episode corridor_env 1 (1/2) 1 0 100 (fresh rng1) =
     Inr (- 1, [],
       \<lparr>q_table = [((0, 0), [(''W'', 0), (''E'', - (1/2))]),
                   ((0, 1), [(''W'', 0), (''E'', 0)])],
        rand = rng1\<lparr>drawn := 4\<rparr>,
        trace = [Chose (0, 0), Stored (0, 0) ''E'' (- 1), Chose (0, 1),
                 Wrote (0, 0) ''E'' (- (1/2)), Stored (0, 1) ''E'' 0,
                 Wrote (0, 1) ''E'' 0]\<rparr>)"
  apply (simp add: n_step_episode_def corridor_simps td_simps)
  apply (subst n_step_loop.simps, simp add: corridor_simps td_simps nstep_simps)
  apply (subst n_step_loop.simps, simp add: corridor_simps td_simps nstep_simps)
  apply (subst n_step_loop.simps, simp add: corridor_simps td_simps nstep_simps)
  done

theorem n_step_one_is_sarsa_witness:
  "episodic corridor_env \<and> goal_untouched corridor_env (fresh rng1) \<and>
   (\<exists>ws' wn'.
      sarsa_episode corridor_env (1/2) 1 0 (fresh rng1) = Some (Inr (- 1, ws')) \<and>
      n_step_episode corridor_env 1 (1/2) 1 0 100 (fresh rng1) = Inr (- 1, [], wn') \<and>
      map pair_of (episode_writes (fresh rng1) ws') = [((0, 0), ''E''), ((0, 1), ''E'')] \<and>
      map pair_of (episode_stored (fresh rng1) wn') = [((0, 0), ''E''), ((0, 1), ''E'')] \<and>
      episode_writes (fresh rng1) ws' = [((0, 0), ''E'', - (1/2)), ((0, 1), ''E'', 0)] \<and>
      episode_writes (fresh rng1) wn' = episode_writes (fresh rng1) ws' \<and>
      row_of corridor_env (q_table wn') = row_of corridor_env (q_table ws'))"
proof -
  let ?ws = "\<lparr>q_table = [((0, 0), [(''W'', 0), (''E'', - (1/2))]),
                         ((0, 1), [(''W'', 0), (''E'', 0)]),
                         ((0, 2), [(''W'', 0), (''E'', 0)])],
              rand = rng1\<lparr>drawn := 6\<rparr>,
              trace = [Chose (0, 0), Chose (0, 1), Wrote (0, 0) ''E'' (- (1/2)),
                       Chose (0, 2), Wrote (0, 1) ''E'' 0]\<rparr>"
  let ?wn = "\<lparr>q_table = [((0, 0), [(''W'', 0), (''E'', - (1/2))]),
                         ((0, 1), [(''W'', 0), (''E'', 0)])],
              rand = rng1\<lparr>drawn := 4\<rparr>,
              trace = [Chose (0, 0), Stored (0, 0) ''E'' (- 1), Chose (0, 1),
                       Wrote (0, 0) ''E'' (- (1/2)), Stored (0, 1) ''E'' 0,
                       Wrote (0, 1) ''E'' 0]\<rparr>"
  have s: "sarsa_episode corridor_env (1/2) 1 0 (fresh rng1) = Some (Inr (- 1, ?ws))"
    by (rule sarsa_episode_corridor)
  have n: "n_step_episode corridor_env 1 (1/2) 1 0 100 (fresh rng1) = Inr (- 1, [], ?wn)"
    by (rule n_step_one_episode_corridor)
  have gu: "goal_untouched corridor_env (fresh rng1)"
    by (simp add: goal_untouched_def never_wrote_goal_def row_of_def fresh_def)
  have ps: "map pair_of (episode_writes (fresh rng1) ?ws) = [((0, 0), ''E''), ((0, 1), ''E'')]"
    by (simp add: episode_writes_def fresh_def pair_of_def)
  have pn: "map pair_of (episode_stored (fresh rng1) ?wn) = [((0, 0), ''E''), ((0, 1), ''E'')]"
    by (simp add: episode_stored_def fresh_def pair_of_def)
  have es: "episode_writes (fresh rng1) ?ws = [((0, 0), ''E'', - (1/2)), ((0, 1), ''E'', 0)]"
    by (simp add: episode_writes_def fresh_def)
  from ps pn
  have same: "map pair_of (episode_writes (fresh rng1) ?ws) =
      map pair_of (episode_stored (fresh rng1) ?wn)" by simp
  from n_step_one_is_sarsa [OF corridor_episodic gu refl s n same]
  have eq: "episode_writes (fresh rng1) ?wn = episode_writes (fresh rng1) ?ws \<and>
      row_of corridor_env (q_table ?wn) = row_of corridor_env (q_table ?ws)" .
  have "sarsa_episode corridor_env (1/2) 1 0 (fresh rng1) = Some (Inr (- 1, ?ws)) \<and>
      n_step_episode corridor_env 1 (1/2) 1 0 100 (fresh rng1) = Inr (- 1, [], ?wn) \<and>
      map pair_of (episode_writes (fresh rng1) ?ws) = [((0, 0), ''E''), ((0, 1), ''E'')] \<and>
      map pair_of (episode_stored (fresh rng1) ?wn) = [((0, 0), ''E''), ((0, 1), ''E'')] \<and>
      episode_writes (fresh rng1) ?ws = [((0, 0), ''E'', - (1/2)), ((0, 1), ''E'', 0)] \<and>
      episode_writes (fresh rng1) ?wn = episode_writes (fresh rng1) ?ws \<and>
      row_of corridor_env (q_table ?wn) = row_of corridor_env (q_table ?ws)"
    using s n ps pn es eq by (intro conjI) simp_all
  then have "\<exists>ws' wn'.
      sarsa_episode corridor_env (1/2) 1 0 (fresh rng1) = Some (Inr (- 1, ws')) \<and>
      n_step_episode corridor_env 1 (1/2) 1 0 100 (fresh rng1) = Inr (- 1, [], wn') \<and>
      map pair_of (episode_writes (fresh rng1) ws') = [((0, 0), ''E''), ((0, 1), ''E'')] \<and>
      map pair_of (episode_stored (fresh rng1) wn') = [((0, 0), ''E''), ((0, 1), ''E'')] \<and>
      episode_writes (fresh rng1) ws' = [((0, 0), ''E'', - (1/2)), ((0, 1), ''E'', 0)] \<and>
      episode_writes (fresh rng1) wn' = episode_writes (fresh rng1) ws' \<and>
      row_of corridor_env (q_table wn') = row_of corridor_env (q_table ws')"
    by (intro exI)
  with corridor_episodic gu show ?thesis by (intro conjI)
qed

section \<open>Every recorded assignment is made on the table\<close>














section \<open>The drain updates the table\<close>










end
